theory Spec2Isabelle
  imports Complex_Main
begin

section \<open>ClamWin database updater: a model of \<^verbatim>\<open>clamwin_updater.py\<close>\<close>

text \<open>
  The script talks to two things outside itself: the filesystem and the network. Both are
  made explicit. The filesystem is a finite map from path strings to nodes and is part of
  the threaded state, together with everything the script prints. What the outside world
  decides (which system calls are refused, what the server answers) is a read-only
  environment. Exceptions are values: a computation that may raise returns
  \<open>Inl (e, s)\<close> with the exception and the state reached when it was raised.

  Modelling decisions:
  \<^item> paths follow \<^verbatim>\<open>posixpath\<close>: \<open>path_join\<close> and \<open>basename\<close> are the library's
    algorithms on the separator \<open>/\<close>;
  \<^item> the filesystem map has one entry per path string: links, other spellings of a path
    and the children of a directory that is renamed are not tracked, and only
    \<^verbatim>\<open>os.makedirs\<close> looks at the parent of a path; a refused system call leaves the map as
    it was (a failing \<^verbatim>\<open>os.makedirs\<close> keeps the parents it has made);
  \<^item> \<^verbatim>\<open>print\<close> appends one structured event to the output; the event carries the values
    the message is formatted from. The standard output is taken to be able to encode every
    message (UTF-8), so that \<^verbatim>\<open>print\<close> does not fail; what \<^verbatim>\<open>download_file\<close> does on a
    standard output with a smaller repertoire is modelled separately (\<open>download_file_on\<close>);
  \<^item> the percentage printed during a download is a floating-point number in the source;
    the model records the two integers it is computed from, which the same message prints;
  \<^item> only exceptions derived from \<^verbatim>\<open>Exception\<close> are modelled (no keyboard interrupt).
\<close>

subsection \<open>Paths\<close>

definition sep :: char where
  "sep = CHR ''/''"

text \<open>\<^verbatim>\<open>os.path.join(a, b)\<close> for two components.\<close>

definition path_join :: "string \<Rightarrow> string \<Rightarrow> string" where
  "path_join a b =
     (if b \<noteq> [] \<and> hd b = sep then b
      else if a = [] \<or> last a = sep then a @ b
      else a @ sep # b)"

text \<open>\<^verbatim>\<open>os.path.basename(p)\<close>: what follows the last separator.\<close>

definition basename :: "string \<Rightarrow> string" where
  "basename p = rev (takeWhile (\<lambda>c. c \<noteq> sep) (rev p))"

subsection \<open>Constants of the module\<close>

definition backslash :: char where
  "backslash = CHR 0x5C"

definition DEFAULT_DB_DIR :: string where
  "DEFAULT_DB_DIR =
     ''C:'' @ backslash # ''ProgramData'' @ backslash # ''.clamwin'' @ backslash # ''db''"

text \<open>The dictionary literal, in insertion order (the order \<^verbatim>\<open>items()\<close> iterates in).\<close>

definition DATABASE_URLS :: "(string \<times> string) list" where
  "DATABASE_URLS =
     [(''main.cvd'', ''https://database.clamav.net/main.cvd''),
      (''daily.cvd'', ''https://database.clamav.net/daily.cvd''),
      (''bytecode.cvd'', ''https://database.clamav.net/bytecode.cvd'')]"

subsection \<open>Exceptions\<close>

text \<open>
  The classes the handlers of the script tell apart. In Python
  \<^verbatim>\<open>HTTPError\<close> \<open>\<subseteq>\<close> \<^verbatim>\<open>URLError\<close> \<open>\<subseteq>\<close> \<^verbatim>\<open>OSError\<close> \<open>\<subseteq>\<close> \<^verbatim>\<open>Exception\<close>; \<open>OtherError\<close> stands
  for an exception that is not an \<^verbatim>\<open>OSError\<close> (a \<^verbatim>\<open>ValueError\<close>, say).
\<close>

datatype exn =
    HTTPError int string
  | URLError string
  | OSError string
  | OtherError string

fun is_OSError :: "exn \<Rightarrow> bool" where
  "is_OSError (OtherError _) = False"
| "is_OSError _ = True"

subsection \<open>Filesystem, output and environment\<close>

type_synonym bytes = "char list"

datatype node = File bytes | Dir

datatype fs_op =
    Mkdir string
  | Remove string
  | Rename string string
  | OpenWrite string
  | Write string int

datatype event =
    Downloading string
  | Progress int int
  | Downloaded string
  | HttpErrorMsg int string
  | BlockedHint
  | UrlErrorMsg string
  | ErrorMsg exn
  | CreatedBackupDir string
  | BackedUp string
  | BackupWarning string exn
  | NothingToBackup
  | BackupAborted exn
  | DirMissing string
  | CreatingDir
  | CreatedDir string
  | CreateDirFailed exn
  | BackupHeader
  | DownloadHeader
  | SourceLine
  | DestinationLine string
  | BlankLine
  | Rule
  | Summary int int
  | UpdateCompleted
  | RestartHint
  | SomeFailed
  | PartialUpdate
  | Banner

record state =
  fs :: "string \<rightharpoonup> node"
  out :: "event list"

text \<open>One piece of the response body as it arrives, or the exception a read raises.\<close>

datatype segment = Data bytes | Broken exn

record response =
  content_length :: "string option"
  body :: "segment list"

record env =
  faults :: "fs_op \<Rightarrow> string option"
  urlopen :: "string \<Rightarrow> exn + response"

definition say :: "event \<Rightarrow> state \<Rightarrow> state" where
  "say e s = s\<lparr>out := out s @ [e]\<rparr>"

definition os_exists :: "state \<Rightarrow> string \<Rightarrow> bool" where
  "os_exists s p = (fs s p \<noteq> None)"

type_synonym filesystem = "string \<rightharpoonup> node"

text \<open>
  \<^verbatim>\<open>os.path.split(p)\<close>: what precedes the last separator, without its trailing separators
  unless it consists of separators only, and what follows it.
\<close>

definition path_split :: "string \<Rightarrow> string \<times> string" where
  "path_split p =
     (let head = rev (dropWhile (\<lambda>c. c \<noteq> sep) (rev p));
          tail = rev (takeWhile (\<lambda>c. c \<noteq> sep) (rev p))
      in (if head \<noteq> [] \<and> head \<noteq> replicate (length head) sep
          then rev (dropWhile (\<lambda>c. c = sep) (rev head))
          else head,
          tail))"

text \<open>
  The first lines of \<^verbatim>\<open>os.makedirs\<close>: the name is split, once more when nothing follows
  its last separator.
\<close>

definition makedirs_split :: "string \<Rightarrow> string \<times> string" where
  "makedirs_split name =
     (if snd (path_split name) = [] then path_split (fst (path_split name))
      else path_split name)"

text \<open>\<^verbatim>\<open>os.mkdir(p)\<close>: one directory; an existing path is refused.\<close>

definition os_mkdir :: "env \<Rightarrow> string \<Rightarrow> filesystem \<Rightarrow> (exn \<times> filesystem) + filesystem" where
  "os_mkdir E p m =
     (case faults E (Mkdir p) of
        Some msg \<Rightarrow> Inl (OSError msg, m)
      | None \<Rightarrow>
          if m p \<noteq> None then Inl (OSError ''FileExistsError'', m)
          else Inr (m(p \<mapsto> Dir)))"

text \<open>
  \<^verbatim>\<open>os.makedirs(name)\<close>, with \<^verbatim>\<open>exist_ok\<close> false: when the parent is missing it is made
  first, with its own missing parents, and a \<^verbatim>\<open>FileExistsError\<close> of that step is
  ignored; then the directory itself is made, unless its last component is a dot. What a
  failing call has made before it failed stays.
\<close>

function makedirs :: "env \<Rightarrow> string \<Rightarrow> filesystem \<Rightarrow> (exn \<times> filesystem) + filesystem" where
  "makedirs E name m =
     (if fst (makedirs_split name) \<noteq> [] \<and> snd (makedirs_split name) \<noteq> [] \<and>
         m (fst (makedirs_split name)) = None
      then
        (case makedirs E (fst (makedirs_split name)) m of
           Inl (e, m1) \<Rightarrow>
             if e = OSError ''FileExistsError''
             then (if snd (makedirs_split name) = ''.'' then Inr m1 else os_mkdir E name m1)
             else Inl (e, m1)
         | Inr m1 \<Rightarrow>
             if snd (makedirs_split name) = ''.'' then Inr m1 else os_mkdir E name m1)
      else os_mkdir E name m)"
  by pat_completeness auto
termination
proof (relation "measure (\<lambda>(E, name, m). length name)")
  fix E :: env and name :: string and m :: filesystem
  have s: "length (fst (path_split p)) + length (snd (path_split p)) \<le> length p" for p
  proof -
    have 1: "length (fst (path_split p)) \<le> length (dropWhile (\<lambda>c. c \<noteq> sep) (rev p))"
      by (simp add: path_split_def Let_def length_dropWhile_le)
    have 2: "length (snd (path_split p)) = length (takeWhile (\<lambda>c. c \<noteq> sep) (rev p))"
      by (simp add: path_split_def Let_def)
    have "length (takeWhile (\<lambda>c. c \<noteq> sep) (rev p)) +
          length (dropWhile (\<lambda>c. c \<noteq> sep) (rev p)) =
          length (takeWhile (\<lambda>c. c \<noteq> sep) (rev p) @ dropWhile (\<lambda>c. c \<noteq> sep) (rev p))"
      by (simp only: length_append)
    also have "\<dots> = length (rev p)"
      by (simp only: takeWhile_dropWhile_id)
    finally have 3: "length (takeWhile (\<lambda>c. c \<noteq> sep) (rev p)) +
                  length (dropWhile (\<lambda>c. c \<noteq> sep) (rev p)) = length p"
      by simp
    from 1 2 3 show ?thesis
      by arith
  qed
  assume "fst (makedirs_split name) \<noteq> [] \<and> snd (makedirs_split name) \<noteq> [] \<and>
          m (fst (makedirs_split name)) = None"
  then have "snd (makedirs_split name) \<noteq> []"
    by simp
  moreover have "length (fst (makedirs_split name)) + length (snd (makedirs_split name))
                   \<le> length name"
    using s [of name] s [of "fst (path_split name)"]
    by (simp add: makedirs_split_def)
  ultimately have "length (fst (makedirs_split name)) < length name"
    by (cases "snd (makedirs_split name)") simp_all
  then show "((E, fst (makedirs_split name), m), (E, name, m)) \<in>
               measure (\<lambda>(E, name, m). length name)"
    by simp
qed simp

declare makedirs.simps [simp del]

text \<open>The call \<^verbatim>\<open>os.makedirs(p)\<close> of the script, on the filesystem of the state.\<close>

definition os_makedirs :: "env \<Rightarrow> string \<Rightarrow> state \<Rightarrow> (exn \<times> state) + state" where
  "os_makedirs E p s =
     (case makedirs E p (fs s) of
        Inl (e, m) \<Rightarrow> Inl (e, s\<lparr>fs := m\<rparr>)
      | Inr m \<Rightarrow> Inr (s\<lparr>fs := m\<rparr>))"

definition os_remove :: "env \<Rightarrow> string \<Rightarrow> state \<Rightarrow> (exn \<times> state) + state" where
  "os_remove E p s =
     (case faults E (Remove p) of
        Some m \<Rightarrow> Inl (OSError m, s)
      | None \<Rightarrow>
          (case fs s p of
             None \<Rightarrow> Inl (OSError ''FileNotFoundError'', s)
           | Some Dir \<Rightarrow> Inl (OSError ''IsADirectoryError'', s)
           | Some (File _) \<Rightarrow> Inr (s\<lparr>fs := (fs s)(p := None)\<rparr>)))"

text \<open>\<^verbatim>\<open>os.rename\<close> refuses an existing destination (as it does on Windows).\<close>

definition os_rename :: "env \<Rightarrow> string \<Rightarrow> string \<Rightarrow> state \<Rightarrow> (exn \<times> state) + state" where
  "os_rename E src dst s =
     (case faults E (Rename src dst) of
        Some m \<Rightarrow> Inl (OSError m, s)
      | None \<Rightarrow>
          (case fs s src of
             None \<Rightarrow> Inl (OSError ''FileNotFoundError'', s)
           | Some n \<Rightarrow>
               if fs s dst \<noteq> None then Inl (OSError ''FileExistsError'', s)
               else Inr (s\<lparr>fs := ((fs s)(src := None))(dst \<mapsto> n)\<rparr>)))"

text \<open>\<^verbatim>\<open>open(p, 'wb')\<close>: the file is created or truncated.\<close>

definition open_wb :: "env \<Rightarrow> string \<Rightarrow> state \<Rightarrow> (exn \<times> state) + state" where
  "open_wb E p s =
     (case faults E (OpenWrite p) of
        Some m \<Rightarrow> Inl (OSError m, s)
      | None \<Rightarrow>
          if fs s p = Some Dir then Inl (OSError ''IsADirectoryError'', s)
          else Inr (s\<lparr>fs := (fs s)(p \<mapsto> File [])\<rparr>))"

definition file_content :: "state \<Rightarrow> string \<Rightarrow> bytes" where
  "file_content s p = (case fs s p of Some (File bs) \<Rightarrow> bs | _ \<Rightarrow> [])"

text \<open>\<^verbatim>\<open>f.write(chunk)\<close> at offset \<open>off\<close> of the file opened at \<open>p\<close>.\<close>

definition file_write :: "env \<Rightarrow> string \<Rightarrow> int \<Rightarrow> bytes \<Rightarrow> state \<Rightarrow> (exn \<times> state) + state" where
  "file_write E p off chunk s =
     (case faults E (Write p off) of
        Some m \<Rightarrow> Inl (OSError m, s)
      | None \<Rightarrow> Inr (s\<lparr>fs := (fs s)(p \<mapsto> File (file_content s p @ chunk))\<rparr>))"

subsection \<open>\<^verbatim>\<open>int(...)\<close> on a header value\<close>

text \<open>
  The characters \<^verbatim>\<open>int\<close> skips around the number: the ASCII white space of C
  (tab, line feed, vertical tab, form feed, carriage return, space) and, of the characters
  above 127 that a header value can hold, the two that Unicode counts as white space
  (U+0085 and U+00A0). The separators U+001C to U+001F are not skipped.
\<close>

definition is_space :: "char \<Rightarrow> bool" where
  "is_space c = ((of_char c :: nat) \<in> {9, 10, 11, 12, 13, 32, 133, 160})"

definition is_digit :: "char \<Rightarrow> bool" where
  "is_digit c = (48 \<le> (of_char c :: nat) \<and> (of_char c :: nat) \<le> 57)"

definition digit_val :: "char \<Rightarrow> int" where
  "digit_val c = int (of_char c) - 48"

text \<open>
  Decimal digits, with single underscores allowed between digits. \<open>us\<close> says that a digit
  must come next (at the start and after an underscore).
\<close>

fun parse_digits :: "int \<Rightarrow> bool \<Rightarrow> string \<Rightarrow> int option" where
  "parse_digits acc us [] = (if us then None else Some acc)"
| "parse_digits acc us (c # cs) =
     (if is_digit c then parse_digits (acc * 10 + digit_val c) False cs
      else if c = CHR ''_'' \<and> \<not> us then parse_digits acc True cs
      else None)"

definition strip :: "string \<Rightarrow> string" where
  "strip s = rev (dropWhile is_space (rev (dropWhile is_space s)))"

text \<open>
  The digits of a number after its sign, with the limit on their count
  (\<^verbatim>\<open>sys.int_max_str_digits\<close>, 4300 by default): \<open>None\<close> is \<^verbatim>\<open>ValueError\<close>.
\<close>

definition parse_number :: "string \<Rightarrow> int option" where
  "parse_number cs =
     (if 4300 < length (filter is_digit cs) then None else parse_digits 0 True cs)"

text \<open>\<^verbatim>\<open>int(s)\<close> for a string: \<open>None\<close> is \<^verbatim>\<open>ValueError\<close>.\<close>

definition py_int :: "string \<Rightarrow> int option" where
  "py_int s =
     (case strip s of
        [] \<Rightarrow> None
      | c # cs \<Rightarrow>
          if c = CHR ''-'' then map_option uminus (parse_number cs)
          else if c = CHR ''+'' then parse_number cs
          else parse_number (c # cs))"

subsection \<open>\<^verbatim>\<open>download_file\<close>\<close>

text \<open>
  \<^verbatim>\<open>response.read(n)\<close>: at most \<open>n\<close> bytes of the piece that arrives next; the empty
  result is the end of the body.
\<close>

fun response_read :: "nat \<Rightarrow> segment list \<Rightarrow> (exn + bytes) \<times> segment list" where
  "response_read n [] = (Inr [], [])"
| "response_read n (Broken e # rest) = (Inl e, rest)"
| "response_read n (Data bs # rest) =
     (Inr (take n bs), if n < length bs then Data (drop n bs) # rest else rest)"

fun segment_size :: "segment \<Rightarrow> nat" where
  "segment_size (Data bs) = Suc (length bs)"
| "segment_size (Broken e) = 1"

text \<open>The \<^verbatim>\<open>while True\<close> loop of lines 54 to 64.\<close>

function copy_loop ::
  "env \<Rightarrow> string \<Rightarrow> int \<Rightarrow> segment list \<Rightarrow> int \<Rightarrow> state \<Rightarrow> (exn \<times> state) + state" where
  "copy_loop E dest total_size segs downloaded s =
     (case response_read 8192 segs of
        (Inl e, segs') \<Rightarrow> Inl (e, s)
      | (Inr chunk, segs') \<Rightarrow>
          if chunk = [] then Inr s
          else
            (case file_write E dest downloaded chunk s of
               Inl x \<Rightarrow> Inl x
             | Inr s1 \<Rightarrow>
                 copy_loop E dest total_size segs' (downloaded + int (length chunk))
                   (if total_size > 0
                    then say (Progress (downloaded + int (length chunk)) total_size) s1
                    else s1)))"
  by pat_completeness auto
termination
proof (relation "measure (\<lambda>(E, dest, total_size, segs, downloaded, s).
        sum_list (map segment_size segs))")
  fix E :: env and dest :: string and total_size downloaded :: int and s s1 :: state
  fix segs segs' :: "segment list" and r :: "exn + bytes" and chunk :: bytes
  assume "(r, segs') = response_read 8192 segs" "r = Inr chunk" "chunk \<noteq> []"
  then have "sum_list (map segment_size segs') < sum_list (map segment_size segs)"
    by (cases "(8192 :: nat, segs)" rule: response_read.cases) (auto split: if_splits)
  then show "((E, dest, total_size, segs', downloaded + int (length chunk),
               if 0 < total_size
               then say (Progress (downloaded + int (length chunk)) total_size) s1 else s1),
              (E, dest, total_size, segs, downloaded, s))
             \<in> measure (\<lambda>(E, dest, total_size, segs, downloaded, s).
                   sum_list (map segment_size segs))"
    by simp
qed simp

declare copy_loop.simps [simp del]

text \<open>The body of the \<^verbatim>\<open>try\<close> of \<^verbatim>\<open>download_file\<close> (lines 41 to 67).\<close>

definition download_attempt :: "env \<Rightarrow> string \<Rightarrow> string \<Rightarrow> state \<Rightarrow> (exn \<times> state) + state" where
  "download_attempt E url destination s =
     (let s0 = say (Downloading (basename destination)) s in
      case urlopen E url of
        Inl e \<Rightarrow> Inl (e, s0)
      | Inr resp \<Rightarrow>
          (case (case content_length resp of None \<Rightarrow> Some 0 | Some v \<Rightarrow> py_int v) of
             None \<Rightarrow> Inl (OtherError ''ValueError'', s0)
           | Some total_size \<Rightarrow>
               (case open_wb E destination s0 of
                  Inl x \<Rightarrow> Inl x
                | Inr s1 \<Rightarrow>
                    (case copy_loop E destination total_size (body resp) 0 s1 of
                       Inl x \<Rightarrow> Inl x
                     | Inr s2 \<Rightarrow> Inr (say (Downloaded (basename destination)) s2)))))"

text \<open>The three \<^verbatim>\<open>except\<close> clauses, in the order the source tries them.\<close>

fun download_handler :: "exn \<Rightarrow> state \<Rightarrow> state" where
  "download_handler (HTTPError code reason) s =
     (let s1 = say (HttpErrorMsg code reason) s in
      if code = 403 then say BlockedHint s1 else s1)"
| "download_handler (URLError reason) s = say (UrlErrorMsg reason) s"
| "download_handler e s = say (ErrorMsg e) s"

definition download_file :: "env \<Rightarrow> string \<Rightarrow> string \<Rightarrow> state \<Rightarrow> bool \<times> state" where
  "download_file E url destination s =
     (case download_attempt E url destination s of
        Inr s' \<Rightarrow> (True, s')
      | Inl (e, s') \<Rightarrow> (False, download_handler e s'))"

subsection \<open>\<^verbatim>\<open>download_file\<close> on a standard output of limited repertoire\<close>

text \<open>
  \<^verbatim>\<open>print\<close> encodes the whole message with the encoding of \<^verbatim>\<open>sys.stdout\<close> before it writes
  anything, and raises \<^verbatim>\<open>UnicodeEncodeError\<close> (a \<^verbatim>\<open>ValueError\<close>, so an \<^verbatim>\<open>Exception\<close> that is
  not an \<^verbatim>\<open>OSError\<close>) when a character of the message has no encoding. The literal text of
  the messages is ASCII, which every encoding of a standard output has, except for two
  marks: the check mark U+2713 and the ballot cross U+2717. \<open>code_points\<close> gives, for each
  message, the marks in its text and the characters of the strings formatted into it
  (numbers are formatted in ASCII); \<open>exn_text\<close> is the string an exception is formatted
  from.
\<close>

fun exn_text :: "exn \<Rightarrow> string" where
  "exn_text (HTTPError code reason) = reason"
| "exn_text (URLError reason) = reason"
| "exn_text (OSError m) = m"
| "exn_text (OtherError m) = m"

fun code_points :: "event \<Rightarrow> nat list" where
  "code_points (Downloading name) = map of_char name"
| "code_points (Progress downloaded total_size) = []"
| "code_points (Downloaded name) = 0x2713 # map of_char name"
| "code_points (HttpErrorMsg code reason) = 0x2717 # map of_char reason"
| "code_points BlockedHint = []"
| "code_points (UrlErrorMsg reason) = 0x2717 # map of_char reason"
| "code_points (ErrorMsg e) = 0x2717 # map of_char (exn_text e)"
| "code_points (CreatedBackupDir p) = map of_char p"
| "code_points (BackedUp f) = map of_char f"
| "code_points (BackupWarning f e) = map of_char f @ map of_char (exn_text e)"
| "code_points NothingToBackup = []"
| "code_points (BackupAborted e) = map of_char (exn_text e)"
| "code_points (DirMissing d) = map of_char d"
| "code_points CreatingDir = []"
| "code_points (CreatedDir d) = 0x2713 # map of_char d"
| "code_points (CreateDirFailed e) = 0x2717 # map of_char (exn_text e)"
| "code_points BackupHeader = []"
| "code_points DownloadHeader = []"
| "code_points SourceLine = []"
| "code_points (DestinationLine d) = map of_char d"
| "code_points BlankLine = []"
| "code_points Rule = []"
| "code_points (Summary n k) = []"
| "code_points UpdateCompleted = [0x2713]"
| "code_points RestartHint = []"
| "code_points SomeFailed = [0x2717]"
| "code_points PartialUpdate = []"
| "code_points Banner = []"

text \<open>\<^verbatim>\<open>print\<close> on a standard output that can encode the code points \<open>enc\<close> holds of.\<close>

definition print_to :: "(nat \<Rightarrow> bool) \<Rightarrow> event \<Rightarrow> state \<Rightarrow> (exn \<times> state) + state" where
  "print_to enc e s =
     (if list_all enc (code_points e) then Inr (say e s)
      else Inl (OtherError ''UnicodeEncodeError'', s))"

text \<open>
  The body of the \<^verbatim>\<open>try\<close> again, lines 41 to 67, with every \<^verbatim>\<open>print\<close> of it that can fail.
  The progress message of the loop is plain ASCII, so \<open>copy_loop\<close> serves as it is.
\<close>

definition download_attempt_on ::
  "(nat \<Rightarrow> bool) \<Rightarrow> env \<Rightarrow> string \<Rightarrow> string \<Rightarrow> state \<Rightarrow> (exn \<times> state) + state" where
  "download_attempt_on enc E url destination s =
     (case print_to enc (Downloading (basename destination)) s of
        Inl x \<Rightarrow> Inl x
      | Inr s0 \<Rightarrow>
     (case urlopen E url of
        Inl e \<Rightarrow> Inl (e, s0)
      | Inr resp \<Rightarrow>
          (case (case content_length resp of None \<Rightarrow> Some 0 | Some v \<Rightarrow> py_int v) of
             None \<Rightarrow> Inl (OtherError ''ValueError'', s0)
           | Some total_size \<Rightarrow>
               (case open_wb E destination s0 of
                  Inl x \<Rightarrow> Inl x
                | Inr s1 \<Rightarrow>
                    (case copy_loop E destination total_size (body resp) 0 s1 of
                       Inl x \<Rightarrow> Inl x
                     | Inr s2 \<Rightarrow> print_to enc (Downloaded (basename destination)) s2)))))"

text \<open>
  The handlers, lines 69 to 79. An exception raised inside a handler is not caught by the
  other clauses of the same \<^verbatim>\<open>try\<close>: it leaves the function.
\<close>

fun download_handler_on :: "(nat \<Rightarrow> bool) \<Rightarrow> exn \<Rightarrow> state \<Rightarrow> (exn \<times> state) + state" where
  "download_handler_on enc (HTTPError code reason) s =
     (case print_to enc (HttpErrorMsg code reason) s of
        Inl x \<Rightarrow> Inl x
      | Inr s1 \<Rightarrow> if code = 403 then print_to enc BlockedHint s1 else Inr s1)"
| "download_handler_on enc (URLError reason) s = print_to enc (UrlErrorMsg reason) s"
| "download_handler_on enc e s = print_to enc (ErrorMsg e) s"

definition download_file_on ::
  "(nat \<Rightarrow> bool) \<Rightarrow> env \<Rightarrow> string \<Rightarrow> string \<Rightarrow> state \<Rightarrow> (exn \<times> state) + (bool \<times> state)" where
  "download_file_on enc E url destination s =
     (case download_attempt_on enc E url destination s of
        Inr s' \<Rightarrow> Inr (True, s')
      | Inl (e, s') \<Rightarrow>
          (case download_handler_on enc e s' of
             Inl x \<Rightarrow> Inl x
           | Inr s'' \<Rightarrow> Inr (False, s'')))"

subsection \<open>\<^verbatim>\<open>backup_existing_files\<close>\<close>

text \<open>The inner \<^verbatim>\<open>try\<close> (lines 108 to 111): remove the old backup, move the file.\<close>

definition rotate_attempt ::
  "env \<Rightarrow> string \<Rightarrow> string \<Rightarrow> string \<Rightarrow> state \<Rightarrow> (exn \<times> state) + state" where
  "rotate_attempt E filepath backup_path filename s =
     (case (if os_exists s backup_path then os_remove E backup_path s else Inr s) of
        Inl x \<Rightarrow> Inl x
      | Inr s1 \<Rightarrow>
          (case os_rename E filepath backup_path s1 of
             Inl x \<Rightarrow> Inl x
           | Inr s2 \<Rightarrow> Inr (say (BackedUp filename) s2)))"

text \<open>
  One iteration of the \<^verbatim>\<open>for\<close> loop (lines 97 to 114), on the pair of \<^verbatim>\<open>has_files\<close> and the
  state. \<^verbatim>\<open>os.makedirs\<close> is outside the inner \<^verbatim>\<open>try\<close>: what it raises leaves the loop.
  The inner handler catches \<^verbatim>\<open>OSError\<close> only.
\<close>

definition backup_step ::
  "env \<Rightarrow> string \<Rightarrow> string \<Rightarrow> string \<Rightarrow> bool \<times> state \<Rightarrow> (exn \<times> state) + (bool \<times> state)" where
  "backup_step E db_dir backup_dir filename hs =
     (let filepath = path_join db_dir filename in
      if os_exists (snd hs) filepath then
        (case (if \<not> os_exists (snd hs) backup_dir
               then (case os_makedirs E backup_dir (snd hs) of
                       Inl x \<Rightarrow> Inl x
                     | Inr s1 \<Rightarrow> Inr (say (CreatedBackupDir backup_dir) s1))
               else Inr (snd hs)) of
           Inl x \<Rightarrow> Inl x
         | Inr s1 \<Rightarrow>
             (let backup_path = path_join backup_dir filename in
              case rotate_attempt E filepath backup_path filename s1 of
                Inr s2 \<Rightarrow> Inr (True, s2)
              | Inl (e, s2) \<Rightarrow>
                  if is_OSError e then Inr (True, say (BackupWarning filename e) s2)
                  else Inl (e, s2)))
      else Inr hs)"

fun backup_loop ::
  "env \<Rightarrow> string \<Rightarrow> string \<Rightarrow> string list \<Rightarrow> bool \<times> state \<Rightarrow> (exn \<times> state) + (bool \<times> state)" where
  "backup_loop E db_dir backup_dir [] hs = Inr hs"
| "backup_loop E db_dir backup_dir (filename # rest) hs =
     (case backup_step E db_dir backup_dir filename hs of
        Inl x \<Rightarrow> Inl x
      | Inr hs' \<Rightarrow> backup_loop E db_dir backup_dir rest hs')"

definition backup_existing_files :: "env \<Rightarrow> string \<Rightarrow> state \<Rightarrow> bool \<times> state" where
  "backup_existing_files E db_dir s =
     (let backup_dir = path_join db_dir ''backup'' in
      case backup_loop E db_dir backup_dir (map fst DATABASE_URLS) (False, s) of
        Inr (has_files, s1) \<Rightarrow> (True, if \<not> has_files then say NothingToBackup s1 else s1)
      | Inl (e, s1) \<Rightarrow> (True, say (BackupAborted e) s1))"

subsection \<open>\<^verbatim>\<open>update_database\<close> and \<^verbatim>\<open>main\<close>\<close>

text \<open>Lines 137 to 145; \<open>Inl\<close> is the early \<^verbatim>\<open>return False\<close>.\<close>

definition prepare_dir :: "env \<Rightarrow> string \<Rightarrow> state \<Rightarrow> state + state" where
  "prepare_dir E db_dir s =
     (if \<not> os_exists s db_dir then
        (case os_makedirs E db_dir (say CreatingDir (say (DirMissing db_dir) s)) of
           Inr s1 \<Rightarrow> Inr (say (CreatedDir db_dir) s1)
         | Inl (e, s1) \<Rightarrow> Inl (say (CreateDirFailed e) s1))
      else Inr s)"

text \<open>Lines 148 to 150; the result of \<^verbatim>\<open>backup_existing_files\<close> is dropped.\<close>

definition backup_phase :: "env \<Rightarrow> string \<Rightarrow> bool \<Rightarrow> state \<Rightarrow> state" where
  "backup_phase E db_dir backup s =
     (if backup then snd (backup_existing_files E db_dir (say BackupHeader s)) else s)"

text \<open>The \<^verbatim>\<open>for\<close> loop of lines 160 to 164, on the pair of \<^verbatim>\<open>success_count\<close> and the state.\<close>

fun download_all :: "env \<Rightarrow> string \<Rightarrow> (string \<times> string) list \<Rightarrow> int \<times> state \<Rightarrow> int \<times> state" where
  "download_all E db_dir [] cs = cs"
| "download_all E db_dir ((filename, url) # rest) cs =
     (let destination = path_join db_dir filename;
          r = download_file E url destination (snd cs);
          success_count = (if fst r then fst cs + 1 else fst cs)
      in download_all E db_dir rest (success_count, say BlankLine (snd r)))"

text \<open>Lines 153 to 178.\<close>

definition fetch_phase :: "env \<Rightarrow> string \<Rightarrow> state \<Rightarrow> bool \<times> state" where
  "fetch_phase E db_dir s =
     (let s1 = say (DestinationLine db_dir) (say SourceLine (say DownloadHeader s));
          total_count = int (length DATABASE_URLS);
          r = download_all E db_dir DATABASE_URLS (0, s1);
          success_count = fst r;
          s2 = say (Summary success_count total_count) (say Rule (snd r))
      in if success_count = total_count
         then (True, say RestartHint (say UpdateCompleted s2))
         else (False,
               let s3 = say SomeFailed s2
               in if success_count > 0 then say PartialUpdate s3 else s3))"

definition update_database :: "env \<Rightarrow> string \<Rightarrow> bool \<Rightarrow> state \<Rightarrow> bool \<times> state" where
  "update_database E db_dir backup s =
     (case prepare_dir E db_dir s of
        Inl s' \<Rightarrow> (False, s')
      | Inr s1 \<Rightarrow> fetch_phase E db_dir (backup_phase E db_dir backup s1))"

text \<open>The namespace \<^verbatim>\<open>parse_args\<close> returns when the script goes on to run an update.\<close>

record args =
  args_db_dir :: string
  args_no_backup :: bool

text \<open>\<^verbatim>\<open>main\<close> from line 214 on; the result is the status given to \<^verbatim>\<open>sys.exit\<close>.\<close>

definition main :: "env \<Rightarrow> args \<Rightarrow> state \<Rightarrow> int \<times> state" where
  "main E a s =
     (let s1 = say BlankLine (say Rule (say Banner (say Rule s)));
          r = update_database E (args_db_dir a) (\<not> args_no_backup a) s1
      in (if fst r then 0 else 1, snd r))"

section \<open>Notions used to state the properties\<close>

text \<open>
  The definitions of this section are not part of the script. They name the paths, the
  parts of the output and the parts of a response that the properties speak about.
\<close>

text \<open>The map a call of \<open>makedirs\<close> leaves, whether it raised or not.\<close>

fun result_fs :: "(exn \<times> filesystem) + filesystem \<Rightarrow> filesystem" where
  "result_fs (Inl (e, m)) = m"
| "result_fs (Inr m) = m"

text \<open>
  The paths \<^verbatim>\<open>os.makedirs\<close> can make on the way to \<open>p\<close>: \<open>q\<close> is an initial part of \<open>p\<close> that
  ends where a separator follows, or that consists of separators.
\<close>

definition ancestor :: "string \<Rightarrow> string \<Rightarrow> bool" where
  "ancestor q p =
     (length q < length p \<and> take (length q) p = q \<and>
      (p ! length q = sep \<or> (q \<noteq> [] \<and> q = replicate (length q) sep)))"

text \<open>What a call of \<open>makedirs\<close> for \<open>p\<close> on the map \<open>m\<close> with result \<open>r\<close> has done.\<close>

definition makedirs_ok :: "string \<Rightarrow> filesystem \<Rightarrow> (exn \<times> filesystem) + filesystem \<Rightarrow> bool" where
  "makedirs_ok p m r =
     ((\<forall>q. result_fs r q \<noteq> m q \<longrightarrow>
          m q = None \<and> result_fs r q = Some Dir \<and> (q = p \<or> ancestor q p)) \<and>
      (isl r \<longrightarrow> result_fs r p = m p) \<and>
      (\<not> isl r \<longrightarrow> snd (makedirs_split p) \<noteq> ''.'' \<longrightarrow> result_fs r p = Some Dir))"

text \<open>What \<open>path_join\<close> puts in front of a relative name.\<close>

definition dir_prefix :: "string \<Rightarrow> string" where
  "dir_prefix d = (if d = [] \<or> last d = sep then d else d @ [sep])"

text \<open>A file name that is a single relative component, and not the backup directory's.\<close>

definition plain :: "string \<Rightarrow> bool" where
  "plain f = (f \<noteq> [] \<and> sep \<notin> set f \<and> f \<noteq> ''backup'')"

definition backup_dir_of :: "string \<Rightarrow> string" where
  "backup_dir_of d = path_join d ''backup''"

definition target_path :: "string \<Rightarrow> string \<Rightarrow> string" where
  "target_path d f = path_join d f"

definition backup_path_of :: "string \<Rightarrow> string \<Rightarrow> string" where
  "backup_path_of d f = path_join (backup_dir_of d) f"

text \<open>The state a computation stops in, whether it raised or not.\<close>

fun final :: "(exn \<times> state) + state \<Rightarrow> state" where
  "final (Inl (e, s)) = s"
| "final (Inr s) = s"

text \<open>The files whose download was announced, in order.\<close>

fun attempted :: "event list \<Rightarrow> string list" where
  "attempted [] = []"
| "attempted (Downloading n # es) = n # attempted es"
| "attempted (e # es) = attempted es"

text \<open>The progress reports, in order: bytes so far and declared total.\<close>

fun progress_of :: "event list \<Rightarrow> (int \<times> int) list" where
  "progress_of [] = []"
| "progress_of (Progress d t # es) = (d, t) # progress_of es"
| "progress_of (e # es) = progress_of es"

text \<open>The bytes of a body up to its end, an empty piece or a failing read.\<close>

fun received :: "segment list \<Rightarrow> bytes" where
  "received [] = []"
| "received (Broken e # rest) = []"
| "received (Data bs # rest) = (if bs = [] then [] else bs @ received rest)"

text \<open>A body that no read fails on before its end.\<close>

fun intact :: "segment list \<Rightarrow> bool" where
  "intact [] = True"
| "intact (Broken e # rest) = False"
| "intact (Data bs # rest) = (bs = [] \<or> intact rest)"

text \<open>The value of \<^verbatim>\<open>downloaded\<close> after each of a list of chunks.\<close>

fun running_totals :: "int \<Rightarrow> bytes list \<Rightarrow> int list" where
  "running_totals d [] = []"
| "running_totals d (c # cs) = (d + int (length c)) # running_totals (d + int (length c)) cs"

text \<open>
  The chunks that \<open>copy_loop\<close> writes, in order: those read before the end of the body, a
  failing read or a refused write.
\<close>

function written :: "env \<Rightarrow> string \<Rightarrow> segment list \<Rightarrow> int \<Rightarrow> bytes list" where
  "written E dest segs downloaded =
     (case response_read 8192 segs of
        (Inl e, segs') \<Rightarrow> []
      | (Inr chunk, segs') \<Rightarrow>
          if chunk = [] then []
          else
            (case faults E (Write dest downloaded) of
               Some m \<Rightarrow> []
             | None \<Rightarrow> chunk # written E dest segs' (downloaded + int (length chunk))))"
  by pat_completeness auto
termination
proof (relation "measure (\<lambda>(E, dest, segs, downloaded). sum_list (map segment_size segs))")
  fix E :: env and dest :: string and downloaded :: int
  fix segs segs' :: "segment list" and r :: "exn + bytes" and chunk :: bytes
  assume "(r, segs') = response_read 8192 segs" "r = Inr chunk" "chunk \<noteq> []"
  then have "sum_list (map segment_size segs') < sum_list (map segment_size segs)"
    by (cases "(8192 :: nat, segs)" rule: response_read.cases) (auto split: if_splits)
  then show "((E, dest, segs', downloaded + int (length chunk)), (E, dest, segs, downloaded))
             \<in> measure (\<lambda>(E, dest, segs, downloaded). sum_list (map segment_size segs))"
    by simp
qed simp

declare written.simps [simp del]

text \<open>The value of \<^verbatim>\<open>total_size\<close> for a response; \<open>None\<close> when \<^verbatim>\<open>int\<close> raises.\<close>

definition total_size_of :: "response \<Rightarrow> int option" where
  "total_size_of resp = (case content_length resp of None \<Rightarrow> Some 0 | Some v \<Rightarrow> py_int v)"

text \<open>The percentage of line 63, as an exact number.\<close>

definition percent :: "int \<Rightarrow> int \<Rightarrow> real" where
  "percent downloaded total_size = (real_of_int downloaded / real_of_int total_size) * 100"

subsection \<open>Sample environments and states\<close>

definition no_faults :: "fs_op \<Rightarrow> string option" where
  "no_faults op = None"

definition sample_response :: "string option \<Rightarrow> response" where
  "sample_response cl = \<lparr>content_length = cl, body = [Data ''helloworld'']\<rparr>"

definition env_ok :: env where
  "env_ok = \<lparr>faults = no_faults, urlopen = (\<lambda>u. Inr (sample_response (Some ''10'')))\<rparr>"

definition env_short_length :: env where
  "env_short_length = \<lparr>faults = no_faults, urlopen = (\<lambda>u. Inr (sample_response (Some ''5'')))\<rparr>"

definition env_no_length :: env where
  "env_no_length = \<lparr>faults = no_faults, urlopen = (\<lambda>u. Inr (sample_response None))\<rparr>"

definition env_403 :: env where
  "env_403 =
     \<lparr>faults = no_faults,
      urlopen = (\<lambda>u. if u = ''https://database.clamav.net/daily.cvd''
                     then Inl (HTTPError 403 ''Forbidden'')
                     else Inr (sample_response (Some ''10'')))\<rparr>"

definition st_old :: state where
  "st_old = \<lparr>fs = [''/db'' \<mapsto> Dir, ''/db/main.cvd'' \<mapsto> File ''old''], out = []\<rparr>"

text \<open>The state a loop over the targets stops in, whether it raised or not.\<close>

fun after :: "(exn \<times> state) + (bool \<times> state) \<Rightarrow> state" where
  "after (Inl (e, s)) = s"
| "after (Inr (h, s)) = s"

text \<open>The backup directory exists or \<^verbatim>\<open>os.makedirs\<close> can make it.\<close>

definition backup_dir_ready :: "env \<Rightarrow> string \<Rightarrow> state \<Rightarrow> bool" where
  "backup_dir_ready E d s =
     (os_exists s (backup_dir_of d) \<or> \<not> isl (os_makedirs E (backup_dir_of d) s))"

text \<open>
  What the rotation of target \<open>f\<close>, tried on state \<open>s\<close>, leaves in a later state \<open>s'\<close>: the
  file in the backup slot, or the file in place and a warning.
\<close>

definition rotation_outcome :: "env \<Rightarrow> string \<Rightarrow> string \<Rightarrow> state \<Rightarrow> state \<Rightarrow> bool" where
  "rotation_outcome E d f s s' =
     (case rotate_attempt E (target_path d f) (backup_path_of d f) f s of
        Inr s2 \<Rightarrow>
          fs s' (backup_path_of d f) = fs s (target_path d f) \<and>
          fs s' (target_path d f) = None \<and> BackedUp f \<in> set (out s')
      | Inl (e, s2) \<Rightarrow>
          fs s' (target_path d f) = fs s (target_path d f) \<and>
          BackupWarning f e \<in> set (out s'))"

text \<open>The results of the calls of \<^verbatim>\<open>download_file\<close> that the download loop makes, in order.\<close>

fun download_outcomes :: "env \<Rightarrow> string \<Rightarrow> (string \<times> string) list \<Rightarrow> state \<Rightarrow> bool list" where
  "download_outcomes E d [] s = []"
| "download_outcomes E d ((f, u) # rest) s =
     fst (download_file E u (path_join d f) s) #
     download_outcomes E d rest (say BlankLine (snd (download_file E u (path_join d f) s)))"

text \<open>The state in which the download loop starts, given the state with the directory ready.\<close>

definition fetch_start :: "env \<Rightarrow> string \<Rightarrow> bool \<Rightarrow> state \<Rightarrow> state" where
  "fetch_start E d backup s =
     say (DestinationLine d) (say SourceLine (say DownloadHeader (backup_phase E d backup s)))"

text \<open>
  The results of the downloads of one run of \<^verbatim>\<open>update_database\<close>; \<open>None\<close> when the run
  stops before the download loop.
\<close>

definition run_outcomes :: "env \<Rightarrow> string \<Rightarrow> bool \<Rightarrow> state \<Rightarrow> bool list option" where
  "run_outcomes E d backup s =
     (case prepare_dir E d s of
        Inl s' \<Rightarrow> None
      | Inr s1 \<Rightarrow> Some (download_outcomes E d DATABASE_URLS (fetch_start E d backup s1)))"

text \<open>The messages of the backup step among a list of messages.\<close>

fun backup_events :: "event list \<Rightarrow> event list" where
  "backup_events [] = []"
| "backup_events (BackupHeader # es) = BackupHeader # backup_events es"
| "backup_events (CreatedBackupDir x # es) = CreatedBackupDir x # backup_events es"
| "backup_events (BackedUp x # es) = BackedUp x # backup_events es"
| "backup_events (BackupWarning x e # es) = BackupWarning x e # backup_events es"
| "backup_events (NothingToBackup # es) = NothingToBackup # backup_events es"
| "backup_events (BackupAborted e # es) = BackupAborted e # backup_events es"
| "backup_events (e # es) = backup_events es"

text \<open>Successive runs of \<^verbatim>\<open>update_database\<close> on one directory, one environment per run.\<close>

fun runs :: "env list \<Rightarrow> string \<Rightarrow> bool \<Rightarrow> state \<Rightarrow> state" where
  "runs [] d backup s = s"
| "runs (E # Es) d backup s = runs Es d backup (snd (update_database E d backup s))"

text \<open>The three lines printed before the download loop.\<close>

definition announce :: "string \<Rightarrow> state \<Rightarrow> state" where
  "announce d s = say (DestinationLine d) (say SourceLine (say DownloadHeader s))"

text \<open>The four lines \<^verbatim>\<open>main\<close> prints before it calls \<^verbatim>\<open>update_database\<close>.\<close>

definition banner :: "state \<Rightarrow> state" where
  "banner s = say BlankLine (say Rule (say Banner (say Rule s)))"


definition args_without_backup :: args where
  "args_without_backup = \<lparr>args_db_dir = ''/db'', args_no_backup = True\<rparr>"

definition st_backed :: state where
  "st_backed =
     \<lparr>fs = [''/db'' \<mapsto> Dir, ''/db/main.cvd'' \<mapsto> File ''old'', ''/db/backup'' \<mapsto> Dir,
            ''/db/backup/main.cvd'' \<mapsto> File ''older''],
      out = []\<rparr>"

text \<open>
  The paths the script works on in directory \<open>d\<close>: the directory, the backup directory, one
  path per target and one backup path per target.
\<close>

definition managed_paths :: "string \<Rightarrow> string set" where
  "managed_paths d =
     {d, backup_dir_of d} \<union> target_path d ` set (map fst DATABASE_URLS) \<union>
     backup_path_of d ` set (map fst DATABASE_URLS)"



text \<open>
  Two encodings of a standard output: UTF-8, which has every code point but the
  surrogates, and code page 1252, which Python uses for a redirected output on a
  Western-European Windows (the system the script is written for).
\<close>

definition utf8 :: "nat \<Rightarrow> bool" where
  "utf8 c = (c < 0xD800 \<or> (0xDFFF < c \<and> c \<le> 0x10FFFF))"

definition cp1252 :: "nat \<Rightarrow> bool" where
  "cp1252 c =
     (c < 0x80 \<or> (0xA0 \<le> c \<and> c \<le> 0xFF) \<or>
      c \<in> {0x152, 0x153, 0x160, 0x161, 0x178, 0x17D, 0x17E, 0x192, 0x2C6, 0x2DC, 0x2013,
           0x2014, 0x2018, 0x2019, 0x201A, 0x201C, 0x201D, 0x201E, 0x2020, 0x2021, 0x2022,
           0x2026, 0x2030, 0x2039, 0x203A, 0x20AC, 0x2122})"



section \<open>Properties\<close>

subsection \<open>The result of the backup step\<close>

text \<open>
  Claim C9. \<^verbatim>\<open>backup_existing_files\<close> returns \<^verbatim>\<open>True\<close> on every path, for every directory,
  environment and filesystem: when there is nothing to back up, when single rotations fail
  and when an exception leaves the loop. The controller drops the result: with backups
  enabled, what \<^verbatim>\<open>update_database\<close> does after the directory is ready depends only on
  the state the backup step leaves.
\<close>

theorem backup_existing_files_always_True:
  "fst (backup_existing_files E db_dir s) = True \<and>
   update_database E db_dir True s =
     (case prepare_dir E db_dir s of
        Inl s' \<Rightarrow> (False, s')
      | Inr s1 \<Rightarrow>
          fetch_phase E db_dir (snd (backup_existing_files E db_dir (say BackupHeader s1))))"
  by (simp add: backup_existing_files_def update_database_def backup_phase_def Let_def
           split: sum.split prod.split)

subsection \<open>Paths\<close>

lemma path_join_prefix: "f \<noteq> [] \<Longrightarrow> hd f \<noteq> sep \<Longrightarrow> path_join d f = dir_prefix d @ f"
  by (simp add: path_join_def dir_prefix_def)

lemma plain_hd: "plain f \<Longrightarrow> f \<noteq> [] \<and> hd f \<noteq> sep"
  by (cases f) (auto simp: plain_def)

lemma target_path_eq: "plain f \<Longrightarrow> target_path d f = dir_prefix d @ f"
  by (simp add: target_path_def path_join_prefix plain_hd)

lemma backup_dir_of_eq: "backup_dir_of d = dir_prefix d @ ''backup''"
  by (simp add: backup_dir_of_def path_join_prefix sep_def)

lemma dir_prefix_backup: "dir_prefix (x @ ''backup'') = x @ ''backup'' @ [sep]"
  by (simp add: dir_prefix_def sep_def)

lemma backup_path_of_eq: "plain f \<Longrightarrow> backup_path_of d f = dir_prefix d @ ''backup'' @ sep # f"
  by (simp add: backup_path_of_def path_join_prefix plain_hd backup_dir_of_eq dir_prefix_backup)

lemma target_path_inj: "plain f \<Longrightarrow> plain g \<Longrightarrow> (target_path d f = target_path d g) = (f = g)"
  by (simp add: target_path_eq)

lemma backup_path_inj: "plain f \<Longrightarrow> plain g \<Longrightarrow> (backup_path_of d f = backup_path_of d g) = (f = g)"
  by (simp add: backup_path_of_eq)

lemma target_not_backup: "plain f \<Longrightarrow> plain g \<Longrightarrow> target_path d f \<noteq> backup_path_of d g"
  by (auto simp: target_path_eq backup_path_of_eq plain_def)

lemma target_not_backup_dir: "plain f \<Longrightarrow> target_path d f \<noteq> backup_dir_of d"
  by (auto simp: target_path_eq backup_dir_of_eq plain_def)

lemma backup_path_not_dir: "plain f \<Longrightarrow> backup_path_of d f \<noteq> backup_dir_of d"
  by (auto simp: backup_path_of_eq backup_dir_of_eq)

lemma dir_prefix_app_neq: "x \<noteq> [] \<Longrightarrow> sep \<notin> set x \<or> length x > 1 \<Longrightarrow> dir_prefix d @ x \<noteq> d"
  by (auto simp: dir_prefix_def append_eq_conv_conj)

lemma target_not_db: "plain f \<Longrightarrow> target_path d f \<noteq> d"
  by (simp add: target_path_eq dir_prefix_app_neq plain_def)

lemma backup_dir_not_db: "backup_dir_of d \<noteq> d"
  by (simp add: backup_dir_of_eq dir_prefix_app_neq)

lemma backup_path_not_db: "plain f \<Longrightarrow> backup_path_of d f \<noteq> d"
  by (simp add: backup_path_of_eq dir_prefix_app_neq)

lemma takeWhile_rev_dir_prefix: "takeWhile (\<lambda>c. c \<noteq> sep) (rev (dir_prefix d)) = []"
proof (cases "dir_prefix d = []")
  case True
  then show ?thesis by simp
next
  case False
  then have "last (dir_prefix d) = sep"
    by (auto simp: dir_prefix_def split: if_splits)
  with False have "hd (rev (dir_prefix d)) = sep"
    by (simp add: hd_rev)
  with False show ?thesis
    by (cases "rev (dir_prefix d)") auto
qed

lemma basename_target: "plain f \<Longrightarrow> basename (target_path d f) = f"
proof -
  assume p: "plain f"
  then have "\<And>x. x \<in> set (rev f) \<Longrightarrow> x \<noteq> sep"
    by (auto simp: plain_def)
  then have "takeWhile (\<lambda>c. c \<noteq> sep) (rev f @ rev (dir_prefix d)) =
             rev f @ takeWhile (\<lambda>c. c \<noteq> sep) (rev (dir_prefix d))"
    by (rule takeWhile_append2)
  then have "takeWhile (\<lambda>c. c \<noteq> sep) (rev f @ rev (dir_prefix d)) = rev f"
    by (simp add: takeWhile_rev_dir_prefix)
  with p show ?thesis
    by (simp add: target_path_eq basename_def)
qed

lemma plain_targets: "f \<in> set (map fst DATABASE_URLS) \<Longrightarrow> plain f"
  by (auto simp: DATABASE_URLS_def plain_def sep_def)

subsection \<open>Downloads\<close>

lemma fs_say [simp]: "fs (say e s) = fs s"
  by (simp add: say_def)

lemma out_say [simp]: "out (say e s) = out s @ [e]"
  by (simp add: say_def)

lemma attempted_append [simp]: "attempted (xs @ ys) = attempted xs @ attempted ys"
  by (induction xs rule: attempted.induct) auto

lemma progress_of_append [simp]: "progress_of (xs @ ys) = progress_of xs @ progress_of ys"
  by (induction xs rule: progress_of.induct) auto

lemma file_write_cases:
  "file_write E p off chunk s = r \<Longrightarrow>
   (faults E (Write p off) \<noteq> None \<and> (\<exists>m. r = Inl (OSError m, s))) \<or>
   (faults E (Write p off) = None \<and>
    r = Inr (s\<lparr>fs := (fs s)(p \<mapsto> File (file_content s p @ chunk))\<rparr>))"
  by (auto simp: file_write_def split: option.splits)

lemma received_read:
  "response_read n segs = (Inr chunk, segs') \<Longrightarrow> chunk \<noteq> [] \<Longrightarrow> 0 < n \<Longrightarrow>
   received segs = chunk @ received segs'"
  by (cases "(n, segs)" rule: response_read.cases) (auto split: if_splits)

lemma received_read_end:
  "response_read n segs = (Inr [], segs') \<Longrightarrow> 0 < n \<Longrightarrow> received segs = []"
  by (cases "(n, segs)" rule: response_read.cases) (auto split: if_splits)

lemma copy_loop_frame:
  "p \<noteq> dest \<Longrightarrow> fs (final (copy_loop E dest tot segs d s)) p = fs s p"
proof (induction E dest tot segs d s rule: copy_loop.induct)
  case (1 E dest tot segs d s)
  show ?case
    apply (subst copy_loop.simps)
    using 1 by (auto split: prod.splits sum.splits dest!: file_write_cases)
qed

lemma copy_loop_attempted:
  "attempted (out (final (copy_loop E dest tot segs d s))) = attempted (out s)"
proof (induction E dest tot segs d s rule: copy_loop.induct)
  case (1 E dest tot segs d s)
  show ?case
    apply (subst copy_loop.simps)
    using 1 by (auto split: prod.splits sum.splits dest!: file_write_cases)
qed

lemma copy_loop_content:
  "fs s dest = Some (File bs) \<Longrightarrow>
   fs (final (copy_loop E dest tot segs d s)) dest =
     Some (File (bs @ concat (written E dest segs d)))"
proof (induction E dest tot segs d s arbitrary: bs rule: copy_loop.induct)
  case (1 E dest tot segs d s)
  show ?case
    apply (subst copy_loop.simps)
    apply (subst written.simps)
    using 1 by (auto split: prod.splits sum.splits option.splits simp: file_write_def file_content_def)
qed

lemma copy_loop_progress:
  "progress_of (out (final (copy_loop E dest tot segs d s))) =
     progress_of (out s) @
     (if tot > 0 then map (\<lambda>n. (n, tot)) (running_totals d (written E dest segs d)) else [])"
proof (induction E dest tot segs d s rule: copy_loop.induct)
  case (1 E dest tot segs d s)
  show ?case
    apply (subst copy_loop.simps)
    apply (subst written.simps)
    using 1 by (auto split: prod.splits sum.splits option.splits simp: file_write_def file_content_def)
qed

lemma copy_loop_out_other:
  "tot \<le> 0 \<Longrightarrow> out (final (copy_loop E dest tot segs d s)) = out s"
proof (induction E dest tot segs d s rule: copy_loop.induct)
  case (1 E dest tot segs d s)
  show ?case
    apply (subst copy_loop.simps)
    using 1 by (auto split: prod.splits sum.splits option.splits simp: file_write_def file_content_def)
qed

lemma copy_loop_written_all:
  "copy_loop E dest tot segs d s = Inr t \<Longrightarrow> concat (written E dest segs d) = received segs"
proof (induction E dest tot segs d s rule: copy_loop.induct)
  case (1 E dest tot segs d s)
  show ?case
    apply (subst written.simps)
    using "1.prems" apply (subst (asm) copy_loop.simps)
    using "1.IH" 
    by (auto split: prod.splits sum.splits if_splits option.splits simp: file_write_def  received_read received_read_end)
qed

lemma intact_read:
  "response_read n segs = (r, segs') \<Longrightarrow> intact segs \<Longrightarrow> 0 < n \<Longrightarrow>
   (\<exists>chunk. r = Inr chunk \<and> (chunk \<noteq> [] \<longrightarrow> intact segs'))"
  by (cases "(n, segs)" rule: response_read.cases) (auto split: if_splits)

lemma copy_loop_succeeds:
  "intact segs \<Longrightarrow> (\<And>off. faults E (Write dest off) = None) \<Longrightarrow>
   \<exists>t. copy_loop E dest tot segs d s = Inr t"
proof (induction E dest tot segs d s rule: copy_loop.induct)
  case (1 E dest tot segs d s)
  obtain r segs' where rd: "response_read 8192 segs = (r, segs')"
    by force
  with "1.prems"(1) obtain chunk where r: "r = Inr chunk" and i: "chunk \<noteq> [] \<longrightarrow> intact segs'"
    by (auto dest!: intact_read)
  show ?case
  proof (cases "chunk = []")
    case True
    with rd r show ?thesis
      by (subst copy_loop.simps) simp
  next
    case False
    define s1 where "s1 = s\<lparr>fs := (fs s)(dest \<mapsto> File (file_content s dest @ chunk))\<rparr>"
    have w: "file_write E dest d chunk s = Inr s1"
      by (simp add: file_write_def "1.prems"(2) s1_def)
    from False i have "intact segs'" by simp
    with "1.IH" [OF rd [symmetric] r False w] "1.prems"(2)
    obtain t where "copy_loop E dest tot segs' (d + int (length chunk))
          (if 0 < tot then say (Progress (d + int (length chunk)) tot) s1 else s1) = Inr t"
      by blast
    with rd r False w show ?thesis
      by (subst copy_loop.simps) simp
  qed
qed

lemma fs_download_handler [simp]: "fs (download_handler e s) = fs s"
  by (cases e) (simp_all add: Let_def)

lemma attempted_download_handler [simp]:
  "attempted (out (download_handler e s)) = attempted (out s)"
  by (cases e) (simp_all add: Let_def)

lemma progress_download_handler [simp]:
  "progress_of (out (download_handler e s)) = progress_of (out s)"
  by (cases e) (simp_all add: Let_def)

lemma open_wb_cases:
  "open_wb E p s = r \<Longrightarrow>
   (\<exists>m. r = Inl (OSError m, s)) \<or> r = Inr (s\<lparr>fs := (fs s)(p \<mapsto> File [])\<rparr>)"
  by (auto simp: open_wb_def split: option.splits if_splits)

lemma download_attempt_unfold:
  "download_attempt E url dest s =
     (case urlopen E url of
        Inl e \<Rightarrow> Inl (e, say (Downloading (basename dest)) s)
      | Inr resp \<Rightarrow>
          (case total_size_of resp of
             None \<Rightarrow> Inl (OtherError ''ValueError'', say (Downloading (basename dest)) s)
           | Some tot \<Rightarrow>
               (case open_wb E dest (say (Downloading (basename dest)) s) of
                  Inl x \<Rightarrow> Inl x
                | Inr s1 \<Rightarrow>
                    (case copy_loop E dest tot (body resp) 0 s1 of
                       Inl x \<Rightarrow> Inl x
                     | Inr s2 \<Rightarrow> Inr (say (Downloaded (basename dest)) s2)))))"
  by (simp add: download_attempt_def total_size_of_def Let_def split: sum.split)

lemma download_attempt_final:
  "final (download_attempt E url dest s) = say (Downloading (basename dest)) s \<or>
   (\<exists>resp tot s1.
      urlopen E url = Inr resp \<and> total_size_of resp = Some tot \<and>
      open_wb E dest (say (Downloading (basename dest)) s) = Inr s1 \<and>
      s1 = (say (Downloading (basename dest)) s)
             \<lparr>fs := (fs (say (Downloading (basename dest)) s))(dest \<mapsto> File [])\<rparr> \<and>
      (final (download_attempt E url dest s) = final (copy_loop E dest tot (body resp) 0 s1) \<or>
       final (download_attempt E url dest s) =
         say (Downloaded (basename dest)) (final (copy_loop E dest tot (body resp) 0 s1))))"
  by (auto simp: download_attempt_unfold split: sum.splits option.splits dest!: open_wb_cases)

lemma download_attempt_frame:
  "p \<noteq> dest \<Longrightarrow> fs (final (download_attempt E url dest s)) p = fs s p"
  using download_attempt_final [of E url dest s]
  by (auto simp: copy_loop_frame)

lemma download_attempt_attempted:
  "attempted (out (final (download_attempt E url dest s))) = attempted (out s) @ [basename dest]"
  using download_attempt_final [of E url dest s]
  by (auto simp: copy_loop_attempted)

lemma download_file_final:
  "fs (snd (download_file E url dest s)) = fs (final (download_attempt E url dest s)) \<and>
   attempted (out (snd (download_file E url dest s))) =
     attempted (out (final (download_attempt E url dest s))) \<and>
   progress_of (out (snd (download_file E url dest s))) =
     progress_of (out (final (download_attempt E url dest s)))"
  by (auto simp: download_file_def split: sum.splits)

lemma download_file_frame:
  "p \<noteq> dest \<Longrightarrow> fs (snd (download_file E url dest s)) p = fs s p"
  by (simp add: download_file_final download_attempt_frame)

lemma download_file_attempted:
  "attempted (out (snd (download_file E url dest s))) = attempted (out s) @ [basename dest]"
  by (simp add: download_file_final download_attempt_attempted)

lemma download_file_True:
  assumes "fst (download_file E url dest s)"
  shows "\<exists>resp. urlopen E url = Inr resp \<and>
           fs (snd (download_file E url dest s)) dest = Some (File (received (body resp)))"
proof -
  from assms obtain s' where a: "download_attempt E url dest s = Inr s'"
    by (auto simp: download_file_def split: sum.splits)
  then obtain resp tot s1 s2 where r: "urlopen E url = Inr resp"
    and o: "open_wb E dest (say (Downloading (basename dest)) s) = Inr s1"
    and c: "copy_loop E dest tot (body resp) 0 s1 = Inr s2"
    and s': "s' = say (Downloaded (basename dest)) s2"
    by (auto simp: download_attempt_unfold split: sum.splits option.splits)
  from o have "fs s1 dest = Some (File [])"
    by (auto dest!: open_wb_cases)
  from copy_loop_content [OF this, of E tot "body resp" 0] c
  have "fs s2 dest = Some (File (concat (written E dest (body resp) 0)))"
    by simp
  with copy_loop_written_all [OF c] have "fs s2 dest = Some (File (received (body resp)))"
    by simp
  with r a s' show ?thesis
    by (simp add: download_file_def)
qed


lemma download_file_intact:
  assumes "urlopen E url = Inr resp" "total_size_of resp = Some tot" "intact (body resp)"
    "\<And>off. faults E (Write dest off) = None" "faults E (OpenWrite dest) = None"
    "fs s dest \<noteq> Some Dir"
  shows "fst (download_file E url dest s)"
proof -
  from assms(5,6) obtain s1 where o: "open_wb E dest (say (Downloading (basename dest)) s) = Inr s1"
    by (auto simp: open_wb_def)
  from copy_loop_succeeds [OF assms(3), of E dest tot 0 s1] assms(4)
  obtain t where "copy_loop E dest tot (body resp) 0 s1 = Inr t"
    by blast
  with o assms(1,2) show ?thesis
    by (simp add: download_file_def download_attempt_unfold)
qed

lemma total_size_sample:
  "total_size_of (sample_response (Some ''10'')) = Some 10"
  "total_size_of (sample_response (Some ''5'')) = Some 5"
  "total_size_of (sample_response None) = Some 0"
  "body (sample_response cl) = [Data ''helloworld'']"
  "content_length (sample_response cl) = cl"
  by (simp_all add: sample_response_def total_size_of_def py_int_def parse_number_def strip_def
        is_space_def is_digit_def digit_val_def)

text \<open>
  With a standard output that encodes every message, \<^verbatim>\<open>download_file\<close> turns every
  exception of its body into the result \<^verbatim>\<open>False\<close>: an HTTP error is reported with its code,
  and with the blocking hint when the code is 403; a URL error is reported with its reason;
  anything else is reported as an error. When the body runs to its end the result is
  \<^verbatim>\<open>True\<close>.
\<close>

lemma download_file_handlers:
  "(case download_attempt E url destination s of
      Inr s' \<Rightarrow> download_file E url destination s = (True, s')
    | Inl (e, s') \<Rightarrow>
        download_file E url destination s =
          (False,
           s'\<lparr>out := out s' @
              (case e of
                 HTTPError code reason \<Rightarrow>
                   HttpErrorMsg code reason # (if code = 403 then [BlockedHint] else [])
               | URLError reason \<Rightarrow> [UrlErrorMsg reason]
               | OSError m \<Rightarrow> [ErrorMsg e]
               | OtherError m \<Rightarrow> [ErrorMsg e])\<rparr>))"
  by (simp add: download_file_def say_def Let_def split: sum.split prod.split exn.split)

lemma print_to_progress: "print_to enc (Progress downloaded total_size) s =
  Inr (say (Progress downloaded total_size) s)"
  by (simp add: print_to_def)

lemma utf8_char: "utf8 (of_char (c :: char))"
proof -
  have "(of_char c :: nat) < 256"
    by simp
  then have "(of_char c :: nat) < 0xD800"
    by (rule less_trans) simp
  then show ?thesis
    by (simp add: utf8_def)
qed

lemma utf8_marks: "utf8 0x2713" "utf8 0x2717"
  by (simp_all add: utf8_def)

lemma utf8_code_points: "list_all utf8 (code_points e)"
  by (cases e) (auto simp: list_all_iff utf8_char utf8_marks)

lemma print_to_utf8: "print_to utf8 e s = Inr (say e s)"
  by (simp add: print_to_def utf8_code_points)

lemma download_handler_on_utf8: "download_handler_on utf8 e s = Inr (download_handler e s)"
  by (cases e) (simp_all add: print_to_utf8 Let_def)

lemma download_file_on_utf8:
  "download_file_on utf8 E url destination s = Inr (download_file E url destination s)"
  by (simp add: download_file_on_def download_file_def download_attempt_on_def
        download_attempt_def print_to_utf8 download_handler_on_utf8 Let_def
      split: sum.split option.split prod.split)

lemma cp1252_marks: "\<not> cp1252 0x2713" "\<not> cp1252 0x2717"
  by (simp_all add: cp1252_def)

lemma print_to_mark:
  "\<not> enc 0x2713 \<Longrightarrow> print_to enc (Downloaded n) s = Inl (OtherError ''UnicodeEncodeError'', s)"
  "\<not> enc 0x2717 \<Longrightarrow> print_to enc (HttpErrorMsg c r) s = Inl (OtherError ''UnicodeEncodeError'', s)"
  "\<not> enc 0x2717 \<Longrightarrow> print_to enc (UrlErrorMsg r) s = Inl (OtherError ''UnicodeEncodeError'', s)"
  "\<not> enc 0x2717 \<Longrightarrow> print_to enc (ErrorMsg e) s = Inl (OtherError ''UnicodeEncodeError'', s)"
  by (simp_all add: print_to_def)

lemma download_handler_on_raises:
  "\<not> enc 0x2717 \<Longrightarrow> download_handler_on enc e s = Inl (OtherError ''UnicodeEncodeError'', s)"
  by (cases e) (simp_all add: print_to_mark)

lemma download_attempt_on_raises:
  "\<not> enc 0x2713 \<Longrightarrow> isl (download_attempt_on enc E url destination s)"
  by (simp add: download_attempt_on_def print_to_mark split: sum.split option.split)

lemma download_file_on_raises:
  assumes "\<not> enc 0x2713" "\<not> enc 0x2717"
  shows "\<exists>s'. download_file_on enc E url destination s = Inl (OtherError ''UnicodeEncodeError'', s')"
proof -
  from download_attempt_on_raises [of enc E url destination s] assms(1)
  obtain e s1 where "download_attempt_on enc E url destination s = Inl (e, s1)"
    by (cases "download_attempt_on enc E url destination s") auto
  with download_handler_on_raises [of enc e s1] assms(2) show ?thesis
    by (simp add: download_file_on_def)
qed

lemma download_file_on_403:
  "download_file_on cp1252 env_403 ''https://database.clamav.net/daily.cvd'' ''/db/daily.cvd''
     st_old =
   Inl (OtherError ''UnicodeEncodeError'', st_old\<lparr>out := [Downloading ''daily.cvd'']\<rparr>)"
  by (simp add: download_file_on_def download_attempt_on_def print_to_def cp1252_def
        env_403_def basename_def sep_def st_old_def say_def)

text \<open>
  Claim C3. \<^verbatim>\<open>download_file\<close> is meant never to let an exception reach its caller: its
  docstring promises a boolean and its last handler catches \<^verbatim>\<open>Exception\<close>. But each of the
  three handlers prints a message that starts with the ballot cross U+2717, and the last
  statement of the \<^verbatim>\<open>try\<close> prints the check mark U+2713. On a standard output whose
  encoding has neither character, such as code page 1252, these calls of \<^verbatim>\<open>print\<close> raise
  \<^verbatim>\<open>UnicodeEncodeError\<close>, and raised inside a handler the exception leaves \<^verbatim>\<open>download_file\<close>.
  For a URL that is answered with status 403 the call raises right after the announcement
  of the download, with nothing reported and no boolean returned. Indeed every call raises
  on such an output, also the one whose body was streamed to its end. On a UTF-8 output no
  \<^verbatim>\<open>print\<close> fails and the call returns what \<open>download_file\<close> returns.
\<close>

theorem download_file_propagates_UnicodeEncodeError:
  "download_file_on cp1252 env_403 ''https://database.clamav.net/daily.cvd'' ''/db/daily.cvd''
     st_old =
     Inl (OtherError ''UnicodeEncodeError'', st_old\<lparr>out := [Downloading ''daily.cvd'']\<rparr>) \<and>
   (\<exists>s'. download_file_on cp1252 E url destination s =
            Inl (OtherError ''UnicodeEncodeError'', s')) \<and>
   download_file_on utf8 E url destination s = Inr (download_file E url destination s)"
proof (intro conjI)
  show "download_file_on cp1252 env_403 ''https://database.clamav.net/daily.cvd''
     ''/db/daily.cvd'' st_old =
     Inl (OtherError ''UnicodeEncodeError'', st_old\<lparr>out := [Downloading ''daily.cvd'']\<rparr>)"
    by (rule download_file_on_403)
next
  show "\<exists>s'. download_file_on cp1252 E url destination s =
            Inl (OtherError ''UnicodeEncodeError'', s')"
    by (rule download_file_on_raises) (rule cp1252_marks)+
next
  show "download_file_on utf8 E url destination s = Inr (download_file E url destination s)"
    by (rule download_file_on_utf8)
qed


lemma download_file_opened:
  assumes "urlopen E url = Inr resp" "total_size_of resp = Some tot"
    "open_wb E dest (say (Downloading (basename dest)) s) = Inr s1"
  shows "fst (download_file E url dest s) = (\<not> isl (copy_loop E dest tot (body resp) 0 s1))"
    and "fs (snd (download_file E url dest s)) = fs (final (copy_loop E dest tot (body resp) 0 s1))"
    and "progress_of (out (snd (download_file E url dest s))) =
         progress_of (out (final (copy_loop E dest tot (body resp) 0 s1)))"
  using assms
  by (auto simp: download_file_def download_attempt_unfold split: sum.splits)





subsection \<open>Progress reports\<close>

lemma running_totals_bounds:
  "n \<in> set (running_totals d cs) \<Longrightarrow> d \<le> n \<and> n \<le> d + int (length (concat cs))"
  by (induction cs arbitrary: d) fastforce+

lemma open_wb_Inr:
  "open_wb E dest s = Inr s1 \<Longrightarrow> fs s1 dest = Some (File []) \<and> out s1 = out s"
  by (auto dest!: open_wb_cases)

lemma download_file_progress:
  assumes "urlopen E url = Inr resp" "total_size_of resp = Some tot"
    "open_wb E dest (say (Downloading (basename dest)) s) = Inr s1"
  shows "progress_of (out (snd (download_file E url dest s))) =
           progress_of (out s) @
           (if 0 < tot
            then map (\<lambda>n. (n, tot)) (running_totals 0 (written E dest (body resp) 0))
            else [])"
  using open_wb_Inr [OF assms(3)]
  by (simp add: download_file_opened(3) [OF assms] copy_loop_progress)

lemma download_file_body:
  assumes "urlopen E url = Inr resp" "total_size_of resp = Some tot"
    "open_wb E dest (say (Downloading (basename dest)) s) = Inr s1"
  shows "fs (snd (download_file E url dest s)) dest =
           Some (File (concat (written E dest (body resp) 0)))"
  using open_wb_Inr [OF assms(3)] copy_loop_content [of s1 dest "[]" E tot "body resp" 0]
  by (simp add: download_file_opened(2) [OF assms])

lemma written_intact:
  assumes "intact segs" "\<And>off. faults E (Write dest off) = None"
  shows "concat (written E dest segs d) = received segs"
proof -
  from copy_loop_succeeds [OF assms, of 0 d undefined]
  obtain t where "copy_loop E dest 0 segs d undefined = Inr t"
    by blast
  then show ?thesis
    by (rule copy_loop_written_all)
qed

lemma percent_range:
  "0 < tot \<Longrightarrow> 0 \<le> n \<Longrightarrow> n \<le> tot \<Longrightarrow> 0 \<le> percent n tot \<and> percent n tot \<le> 100"
  by (simp add: percent_def divide_le_eq)

lemma written_sample:
  "faults E (Write dest 0) = None \<Longrightarrow> written E dest [Data ''helloworld''] 0 = [''helloworld'']"
  by (subst written.simps, simp, subst written.simps, simp)

lemma open_wb_sample:
  "faults E (OpenWrite ''/db/main.cvd'') = None \<Longrightarrow>
   open_wb E ''/db/main.cvd'' (say (Downloading (basename ''/db/main.cvd'')) st_old) =
     Inr \<lparr>fs = [''/db'' \<mapsto> Dir, ''/db/main.cvd'' \<mapsto> File []], out = [Downloading ''main.cvd'']\<rparr>"
  by (simp add: open_wb_def st_old_def say_def basename_def sep_def)

text \<open>
  Claim C7, as the code has it. Take a download whose URL opens, whose length header is
  readable (or absent) and whose destination opens. Then a progress report follows each
  chunk written when the declared length is positive, and there is none at all otherwise;
  each report carries the bytes written so far and the declared length. Whatever the header
  says, the chunks are written to the destination; with an absent header the declared
  length is 0, and a body that arrives whole is downloaded with result \<^verbatim>\<open>True\<close>. The
  percentage of a report lies between 0 and 100 as long as the bytes written do not exceed
  the declared length. The loop itself does not bound them: a body sent with chunked
  transfer encoding is read to its end whatever the length header says.
\<close>

theorem progress_reported_iff_length_positive:
  "urlopen E url = Inr resp \<Longrightarrow> total_size_of resp = Some tot \<Longrightarrow>
   open_wb E dest (say (Downloading (basename dest)) s) = Inr s1 \<Longrightarrow>
   progress_of (out (snd (download_file E url dest s))) =
     progress_of (out s) @
     (if 0 < tot
      then map (\<lambda>n. (n, tot)) (running_totals 0 (written E dest (body resp) 0))
      else []) \<and>
   fs (snd (download_file E url dest s)) dest =
     Some (File (concat (written E dest (body resp) 0))) \<and>
   (content_length resp = None \<longrightarrow> tot = 0) \<and>
   (intact (body resp) \<and> (\<forall>off. faults E (Write dest off) = None) \<longrightarrow>
      fst (download_file E url dest s) \<and>
      concat (written E dest (body resp) 0) = received (body resp)) \<and>
   (0 < tot \<and> int (length (concat (written E dest (body resp) 0))) \<le> tot \<longrightarrow>
      (\<forall>n \<in> set (running_totals 0 (written E dest (body resp) 0)).
         0 \<le> percent n tot \<and> percent n tot \<le> 100))"
proof (intro conjI impI ballI)
  assume a: "urlopen E url = Inr resp" "total_size_of resp = Some tot"
    "open_wb E dest (say (Downloading (basename dest)) s) = Inr s1"
  show "progress_of (out (snd (download_file E url dest s))) =
     progress_of (out s) @
     (if 0 < tot
      then map (\<lambda>n. (n, tot)) (running_totals 0 (written E dest (body resp) 0))
      else [])"
    by (rule download_file_progress [OF a])
  show "fs (snd (download_file E url dest s)) dest =
     Some (File (concat (written E dest (body resp) 0)))"
    by (rule download_file_body [OF a])
  show "tot = 0" if "content_length resp = None"
    using that a(2) by (simp add: total_size_of_def)
  show "fst (download_file E url dest s)"
    if "intact (body resp) \<and> (\<forall>off. faults E (Write dest off) = None)"
  proof -
    from that copy_loop_succeeds [of "body resp" E dest tot 0 s1]
    obtain t where "copy_loop E dest tot (body resp) 0 s1 = Inr t"
      by blast
    then show ?thesis
      by (simp add: download_file_opened(1) [OF a])
  qed
  show "concat (written E dest (body resp) 0) = received (body resp)"
    if "intact (body resp) \<and> (\<forall>off. faults E (Write dest off) = None)"
    using that by (intro written_intact) simp_all
  show "0 \<le> percent n tot" "percent n tot \<le> 100"
    if "0 < tot \<and> int (length (concat (written E dest (body resp) 0))) \<le> tot"
      and "n \<in> set (running_totals 0 (written E dest (body resp) 0))" for n
    using that running_totals_bounds [OF that(2)] percent_range [of tot n]
    by simp_all
qed

theorem progress_reported_iff_length_positive_witness:
  "progress_of (out (snd (download_file env_ok ''https://database.clamav.net/main.cvd''
      ''/db/main.cvd'' st_old))) = [(10, 10)] \<and>
   percent 10 10 \<le> 100 \<and>
   progress_of (out (snd (download_file env_no_length ''https://database.clamav.net/main.cvd''
      ''/db/main.cvd'' st_old))) = [] \<and>
   fst (download_file env_no_length ''https://database.clamav.net/main.cvd''
      ''/db/main.cvd'' st_old) \<and>
   fs (snd (download_file env_no_length ''https://database.clamav.net/main.cvd''
      ''/db/main.cvd'' st_old)) ''/db/main.cvd'' = Some (File ''helloworld'')"
proof -
  have f: "faults env_ok op = None" "faults env_no_length op = None" for op
    by (simp_all add: env_ok_def env_no_length_def no_faults_def)
  have u: "urlopen env_ok ''https://database.clamav.net/main.cvd'' =
             Inr (sample_response (Some ''10''))"
    "urlopen env_no_length ''https://database.clamav.net/main.cvd'' =
             Inr (sample_response None)"
    by (simp_all add: env_ok_def env_no_length_def)
  note a = progress_reported_iff_length_positive
      [OF u(1) total_size_sample(1) open_wb_sample [OF f(1)]]
  note b = progress_reported_iff_length_positive
      [OF u(2) total_size_sample(3) open_wb_sample [OF f(2)]]
  have 1: "progress_of (out (snd (download_file env_ok ''https://database.clamav.net/main.cvd''
      ''/db/main.cvd'' st_old))) = [(10, 10)]"
    using a [THEN conjunct1] by (simp add: total_size_sample written_sample f st_old_def)
  have 2: "percent 10 10 \<le> 100"
    using a [THEN conjunct2, THEN conjunct2, THEN conjunct2, THEN conjunct2]
    by (simp add: total_size_sample written_sample f)
  have 3: "progress_of (out (snd (download_file env_no_length
      ''https://database.clamav.net/main.cvd'' ''/db/main.cvd'' st_old))) = []"
    using b [THEN conjunct1] by (simp add: st_old_def)
  have 4: "fst (download_file env_no_length ''https://database.clamav.net/main.cvd''
      ''/db/main.cvd'' st_old)"
    using b [THEN conjunct2, THEN conjunct2, THEN conjunct2, THEN conjunct1]
    by (simp add: total_size_sample f)
  have 5: "fs (snd (download_file env_no_length ''https://database.clamav.net/main.cvd''
      ''/db/main.cvd'' st_old)) ''/db/main.cvd'' = Some (File ''helloworld'')"
    using b [THEN conjunct2, THEN conjunct1]
    by (simp add: total_size_sample written_sample f)
  from 1 2 3 4 5 show ?thesis
    by simp
qed

theorem progress_above_100_counterexample:
  "progress_of (out (snd (download_file env_short_length
      ''https://database.clamav.net/main.cvd'' ''/db/main.cvd'' st_old))) = [(10, 5)] \<and>
   percent 10 5 = 200"
proof -
  have f: "faults env_short_length op = None" for op
    by (simp add: env_short_length_def no_faults_def)
  have u: "urlopen env_short_length ''https://database.clamav.net/main.cvd'' =
             Inr (sample_response (Some ''5''))"
    by (simp add: env_short_length_def)
  from download_file_progress [OF u total_size_sample(2) open_wb_sample [OF f]]
  have "progress_of (out (snd (download_file env_short_length
      ''https://database.clamav.net/main.cvd'' ''/db/main.cvd'' st_old))) = [(10, 5)]"
    by (simp add: total_size_sample written_sample f st_old_def)
  then show ?thesis
    by (simp add: percent_def)
qed

subsection \<open>Making directories\<close>

lemma replicate_set: "q = replicate n c \<Longrightarrow> set q \<subseteq> {c}"
  by auto

lemma ancestor_iff:
  "ancestor q p = (\<exists>r. p = q @ r \<and> r \<noteq> [] \<and> (hd r = sep \<or> (q \<noteq> [] \<and> set q \<subseteq> {sep})))"
proof
  assume a: "ancestor q p"
  have "take (length q) p @ drop (length q) p = p"
    by simp
  with a have 1: "p = q @ drop (length q) p"
    by (simp add: ancestor_def)
  from a have 2: "drop (length q) p \<noteq> []"
    by (simp add: ancestor_def)
  from a have "p ! length q = sep \<or> (q \<noteq> [] \<and> q = replicate (length q) sep)"
    by (simp add: ancestor_def)
  then have 3: "hd (drop (length q) p) = sep \<or> (q \<noteq> [] \<and> set q \<subseteq> {sep})"
  proof
    assume "p ! length q = sep"
    with a show ?thesis
      by (simp add: ancestor_def hd_drop_conv_nth)
  next
    assume b: "q \<noteq> [] \<and> q = replicate (length q) sep"
    with replicate_set [of q "length q" sep] show ?thesis
      by blast
  qed
  from 1 2 3 show "\<exists>r. p = q @ r \<and> r \<noteq> [] \<and> (hd r = sep \<or> (q \<noteq> [] \<and> set q \<subseteq> {sep}))"
    by blast
next
  assume "\<exists>r. p = q @ r \<and> r \<noteq> [] \<and> (hd r = sep \<or> (q \<noteq> [] \<and> set q \<subseteq> {sep}))"
  then obtain r where r: "p = q @ r" "r \<noteq> []" "hd r = sep \<or> (q \<noteq> [] \<and> set q \<subseteq> {sep})"
    by blast
  from r(3) have "p ! length q = sep \<or> (q \<noteq> [] \<and> q = replicate (length q) sep)"
  proof
    assume "hd r = sep"
    with r(1,2) show ?thesis
      by (simp add: nth_append hd_conv_nth)
  next
    assume b: "q \<noteq> [] \<and> set q \<subseteq> {sep}"
    then have "replicate (length q) sep = q"
      by (intro replicate_length_same) auto
    with b show ?thesis by simp
  qed
  with r(1,2) show "ancestor q p"
    by (simp add: ancestor_def)
qed

lemma ancestor_trans:
  assumes "ancestor q h" "ancestor h p"
  shows "ancestor q p"
proof -
  from assms(1) obtain r1 where 1: "h = q @ r1" "r1 \<noteq> []"
    "hd r1 = sep \<or> (q \<noteq> [] \<and> set q \<subseteq> {sep})"
    unfolding ancestor_iff by blast
  from assms(2) obtain r2 where 2: "p = h @ r2"
    unfolding ancestor_iff by blast
  from 1 2 have "p = q @ (r1 @ r2) \<and> r1 @ r2 \<noteq> [] \<and>
     (hd (r1 @ r2) = sep \<or> (q \<noteq> [] \<and> set q \<subseteq> {sep}))"
    by simp
  then show ?thesis
    unfolding ancestor_iff by blast
qed

lemma rev_split_while: "xs = rev (dropWhile P (rev xs)) @ rev (takeWhile P (rev xs))"
proof -
  have "rev (dropWhile P (rev xs)) @ rev (takeWhile P (rev xs)) =
        rev (takeWhile P (rev xs) @ dropWhile P (rev xs))"
    by (simp only: rev_append)
  also have "\<dots> = xs"
    by (simp only: takeWhile_dropWhile_id rev_rev_ident)
  finally show ?thesis
    by simp
qed

lemma path_split_append:
  "\<exists>ss. p = fst (path_split p) @ ss @ snd (path_split p) \<and> set ss \<subseteq> {sep} \<and>
        (fst (path_split p) \<noteq> [] \<longrightarrow> ss \<noteq> [] \<or> set (fst (path_split p)) \<subseteq> {sep})"
proof -
  define head where "head = rev (dropWhile (\<lambda>c. c \<noteq> sep) (rev p))"
  define tail where "tail = rev (takeWhile (\<lambda>c. c \<noteq> sep) (rev p))"
  have p: "p = head @ tail"
    unfolding head_def tail_def by (rule rev_split_while)
  have fg: "fst (path_split p) =
      (if head \<noteq> [] \<and> head \<noteq> replicate (length head) sep
       then rev (dropWhile (\<lambda>c. c = sep) (rev head)) else head)"
    and t: "snd (path_split p) = tail"
    by (simp_all add: path_split_def Let_def head_def tail_def)
  show ?thesis
  proof (cases "head \<noteq> [] \<and> head \<noteq> replicate (length head) sep")
    case True
    define h where "h = rev (dropWhile (\<lambda>c. c = sep) (rev head))"
    define ss where "ss = rev (takeWhile (\<lambda>c. c = sep) (rev head))"
    have hs: "head = h @ ss"
      unfolding h_def ss_def by (rule rev_split_while)
    have sss: "set ss \<subseteq> {sep}"
      by (auto simp: ss_def dest: set_takeWhileD)
    from True have "dropWhile (\<lambda>c. c \<noteq> sep) (rev p) \<noteq> []"
      by (simp add: head_def)
    then have "\<not> hd (dropWhile (\<lambda>c. c \<noteq> sep) (rev p)) \<noteq> sep"
      by (rule hd_dropWhile)
    then have "hd (rev head) = sep"
      by (simp add: head_def)
    with True have "takeWhile (\<lambda>c. c = sep) (rev head) \<noteq> []"
      by (cases "rev head") auto
    then have ne: "ss \<noteq> []"
      by (simp add: ss_def)
    from True have f: "fst (path_split p) = h"
      unfolding fg h_def by simp
    from p hs sss ne show ?thesis
      unfolding f t by (intro exI [of _ ss]) simp
  next
    case False
    then have "head = [] \<or> head = replicate (length head) sep"
      by blast
    then have sh: "set head \<subseteq> {sep}"
      using replicate_set [of head "length head" sep] by auto
    from False have f: "fst (path_split p) = head"
      unfolding fg by auto
    from p sh show ?thesis
      unfolding f t by (intro exI [of _ "[]"]) simp
  qed
qed

lemma makedirs_split_ancestor:
  assumes "fst (makedirs_split p) \<noteq> []" "snd (makedirs_split p) \<noteq> []"
  shows "ancestor (fst (makedirs_split p)) p"
proof (cases "snd (path_split p) = []")
  case False
  then have m: "makedirs_split p = path_split p"
    by (simp add: makedirs_split_def)
  from path_split_append [of p] obtain ss where ss:
    "p = fst (path_split p) @ ss @ snd (path_split p)" "set ss \<subseteq> {sep}"
    "fst (path_split p) \<noteq> [] \<longrightarrow> ss \<noteq> [] \<or> set (fst (path_split p)) \<subseteq> {sep}"
    by blast
  from assms m have n: "fst (path_split p) \<noteq> []" "snd (path_split p) \<noteq> []"
    by simp_all
  from ss(2) have hs: "ss \<noteq> [] \<Longrightarrow> hd (ss @ snd (path_split p)) = sep"
    by (cases ss) auto
  from ss(3) n(1) hs have "hd (ss @ snd (path_split p)) = sep \<or>
      (fst (path_split p) \<noteq> [] \<and> set (fst (path_split p)) \<subseteq> {sep})"
    by blast
  with ss(1) n(2) have "\<exists>r. p = fst (path_split p) @ r \<and> r \<noteq> [] \<and>
      (hd r = sep \<or> (fst (path_split p) \<noteq> [] \<and> set (fst (path_split p)) \<subseteq> {sep}))"
    by (intro exI [of _ "ss @ snd (path_split p)"]) simp
  then show ?thesis
    unfolding m ancestor_iff .
next
  case True
  define h0 where "h0 = fst (path_split p)"
  from True have m: "makedirs_split p = path_split h0"
    by (simp add: makedirs_split_def h0_def)
  from path_split_append [of p] True obtain ss0 where ss0: "p = h0 @ ss0"
    by (auto simp: h0_def)
  from path_split_append [of h0] obtain ss where ss:
    "h0 = fst (path_split h0) @ ss @ snd (path_split h0)" "set ss \<subseteq> {sep}"
    "fst (path_split h0) \<noteq> [] \<longrightarrow> ss \<noteq> [] \<or> set (fst (path_split h0)) \<subseteq> {sep}"
    by blast
  from assms m have n: "fst (path_split h0) \<noteq> []" "snd (path_split h0) \<noteq> []"
    by simp_all
  define r where "r = ss @ snd (path_split h0) @ ss0"
  from ss(2) have hs: "ss \<noteq> [] \<Longrightarrow> hd r = sep"
    by (cases ss) (auto simp: r_def)
  from ss(3) n(1) hs have c: "hd r = sep \<or>
      (fst (path_split h0) \<noteq> [] \<and> set (fst (path_split h0)) \<subseteq> {sep})"
    by blast
  from ss0 ss(1) have "p = (fst (path_split h0) @ ss @ snd (path_split h0)) @ ss0"
    by simp
  then have "p = fst (path_split h0) @ r"
    by (simp add: r_def)
  moreover from n(2) have "r \<noteq> []"
    by (simp add: r_def)
  ultimately have "\<exists>r. p = fst (path_split h0) @ r \<and> r \<noteq> [] \<and>
      (hd r = sep \<or> (fst (path_split h0) \<noteq> [] \<and> set (fst (path_split h0)) \<subseteq> {sep}))"
    using c by blast
  then show ?thesis
    unfolding m ancestor_iff .
qed


lemma ancestor_shorter: "ancestor q p \<Longrightarrow> length q < length p"
  by (simp add: ancestor_def)

lemma os_mkdir_cases:
  "(\<exists>e. os_mkdir E p m = Inl (e, m)) \<or> (m p = None \<and> os_mkdir E p m = Inr (m(p \<mapsto> Dir)))"
  by (auto simp: os_mkdir_def split: option.splits)

lemma makedirs_ok_mkdir:
  assumes "\<forall>q. m1 q \<noteq> m q \<longrightarrow> m q = None \<and> m1 q = Some Dir \<and> ancestor q p"
  shows "makedirs_ok p m (os_mkdir E p m1)"
proof -
  from assms ancestor_shorter [of p p] have same: "m1 p = m p"
    by auto
  from os_mkdir_cases [of E p m1] show ?thesis
  proof (elim disjE exE conjE)
    fix e assume "os_mkdir E p m1 = Inl (e, m1)"
    with assms same show ?thesis
      by (simp add: makedirs_ok_def)
  next
    assume "m1 p = None" "os_mkdir E p m1 = Inr (m1(p \<mapsto> Dir))"
    with assms same show ?thesis
      by (auto simp: makedirs_ok_def)
  qed
qed

lemma makedirs_effect: "makedirs_ok p m (makedirs E p m)"
proof (induction E p m rule: makedirs.induct)
  case (1 E name m)
  define h where "h = fst (makedirs_split name)"
  define t where "t = snd (makedirs_split name)"
  show ?case
  proof (cases "h \<noteq> [] \<and> t \<noteq> [] \<and> m h = None")
    case False
    then have "makedirs E name m = os_mkdir E name m"
      by (subst makedirs.simps) (auto simp: h_def t_def)
    then show ?thesis
      using makedirs_ok_mkdir [of m m name E] by simp
  next
    case True
    then have anc: "ancestor h name"
      unfolding h_def t_def by (intro makedirs_split_ancestor) simp_all
    from True have "makedirs_ok h m (makedirs E h m)"
      unfolding h_def t_def by (intro "1.IH") simp
    then have ih: "\<forall>q. result_fs (makedirs E h m) q \<noteq> m q \<longrightarrow>
        m q = None \<and> result_fs (makedirs E h m) q = Some Dir \<and> ancestor q name"
      using anc by (auto simp: makedirs_ok_def intro: ancestor_trans)
    from ih ancestor_shorter [of name name] have same:
      "result_fs (makedirs E h m) name = m name"
      by auto
    define m1 where "m1 = result_fs (makedirs E h m)"
    have unf: "makedirs E name m =
        (case makedirs E h m of
           Inl (e, m1) \<Rightarrow>
             if e = OSError ''FileExistsError''
             then (if t = ''.'' then Inr m1 else os_mkdir E name m1)
             else Inl (e, m1)
         | Inr m1 \<Rightarrow> if t = ''.'' then Inr m1 else os_mkdir E name m1)"
      using True unfolding h_def t_def by (subst makedirs.simps) simp
    have stop: "makedirs_ok name m (Inl (e, m1))" for e
      using ih same by (simp add: makedirs_ok_def m1_def)
    have dot: "t = ''.'' \<Longrightarrow> makedirs_ok name m (Inr m1)"
      using ih by (simp add: makedirs_ok_def m1_def t_def)
    have mk: "makedirs_ok name m (os_mkdir E name m1)"
      using ih by (intro makedirs_ok_mkdir) (simp add: m1_def)
    show ?thesis
    proof (cases "makedirs E h m")
      case (Inl x)
      obtain e m' where x: "x = (e, m')"
        by (cases x)
      with Inl have "m' = m1"
        by (simp add: m1_def)
      with Inl x stop [of e] dot mk show ?thesis
        by (simp add: unf)
    next
      case (Inr m')
      then have "m' = m1"
        by (simp add: m1_def)
      with Inr dot mk show ?thesis
        by (simp add: unf)
    qed
  qed
qed

lemma path_sample: "makedirs_split ''/srv/clamwin/db'' = (''/srv/clamwin'', ''db'')"
  "makedirs_split ''/srv/clamwin'' = (''/srv'', ''clamwin'')"
  by (simp_all add: makedirs_split_def path_split_def sep_def Let_def)

lemma makedirs_sample:
  "makedirs env_ok ''/srv/clamwin/db'' [''/srv'' \<mapsto> Dir] =
     Inr [''/srv'' \<mapsto> Dir, ''/srv/clamwin'' \<mapsto> Dir, ''/srv/clamwin/db'' \<mapsto> Dir]"
  by (simp add: makedirs.simps path_sample os_mkdir_def env_ok_def no_faults_def)


lemma ancestor_longer: "length p \<le> length q \<Longrightarrow> \<not> ancestor q p"
  by (simp add: ancestor_def)

lemma ancestor_extend: "ancestor q p \<Longrightarrow> ancestor q (p @ r)"
proof -
  assume "ancestor q p"
  then obtain r1 where "p = q @ r1" "r1 \<noteq> []" "hd r1 = sep \<or> (q \<noteq> [] \<and> set q \<subseteq> {sep})"
    unfolding ancestor_iff by blast
  then have "p @ r = q @ (r1 @ r) \<and> r1 @ r \<noteq> [] \<and>
     (hd (r1 @ r) = sep \<or> (q \<noteq> [] \<and> set q \<subseteq> {sep}))"
    by simp
  then show ?thesis
    unfolding ancestor_iff by blast
qed

lemma dir_prefix_extends: "\<exists>r. dir_prefix d = d @ r"
  by (simp add: dir_prefix_def)

lemma ancestor_backup_dir: "ancestor q d \<Longrightarrow> ancestor q (backup_dir_of d)"
proof -
  assume a: "ancestor q d"
  from dir_prefix_extends [of d] obtain r where "backup_dir_of d = d @ (r @ ''backup'')"
    by (auto simp: backup_dir_of_eq)
  with ancestor_extend [OF a] show ?thesis
    by simp
qed

lemma target_not_ancestor_backup: "plain f \<Longrightarrow> \<not> ancestor (target_path d f) (backup_dir_of d)"
proof
  assume p: "plain f" and "ancestor (target_path d f) (backup_dir_of d)"
  then obtain r where r: "dir_prefix d @ ''backup'' = (dir_prefix d @ f) @ r" "r \<noteq> []"
    "hd r = sep \<or> set (dir_prefix d @ f) \<subseteq> {sep}"
    unfolding ancestor_iff by (auto simp: target_path_eq backup_dir_of_eq)
  from r(1) have b: "''backup'' = f @ r"
    by simp
  from r(3) show False
  proof
    assume "hd r = sep"
    with r(2) have "sep \<in> set r"
      by (cases r) auto
    with b have "sep \<in> set ''backup''"
      by (metis Un_iff set_append)
    then show False
      by (simp add: sep_def)
  next
    assume "set (dir_prefix d @ f) \<subseteq> {sep}"
    with p show False
      by (cases f) (auto simp: plain_def)
  qed
qed

lemma backup_path_not_ancestor_backup:
  "plain f \<Longrightarrow> \<not> ancestor (backup_path_of d f) (backup_dir_of d)"
  by (rule ancestor_longer) (simp add: backup_path_of_eq backup_dir_of_eq)

lemma length_dir_prefix: "length d \<le> length (dir_prefix d)"
  by (simp add: dir_prefix_def)

lemma managed_not_ancestor:
  "\<not> ancestor (backup_dir_of d) d"
  "plain f \<Longrightarrow> \<not> ancestor (target_path d f) d"
  "plain f \<Longrightarrow> \<not> ancestor (backup_path_of d f) d"
  using length_dir_prefix [of d]
  by (auto intro!: ancestor_longer simp: backup_dir_of_eq target_path_eq backup_path_of_eq)

lemma basename_dir_prefix: "sep \<notin> set f \<Longrightarrow> basename (dir_prefix d @ f) = f"
proof -
  assume "sep \<notin> set f"
  then have "\<And>x. x \<in> set (rev f) \<Longrightarrow> x \<noteq> sep"
    by auto
  then have "takeWhile (\<lambda>c. c \<noteq> sep) (rev f @ rev (dir_prefix d)) =
             rev f @ takeWhile (\<lambda>c. c \<noteq> sep) (rev (dir_prefix d))"
    by (rule takeWhile_append2)
  then show ?thesis
    by (simp add: basename_def takeWhile_rev_dir_prefix)
qed

lemma backup_dir_split: "snd (makedirs_split (backup_dir_of d)) = ''backup''"
proof -
  have "snd (path_split (backup_dir_of d)) = basename (backup_dir_of d)"
    by (simp add: path_split_def basename_def Let_def)
  also have "\<dots> = ''backup''"
    unfolding backup_dir_of_eq by (rule basename_dir_prefix) (simp add: sep_def)
  finally show ?thesis
    by (simp add: makedirs_split_def)
qed

lemma os_makedirs_effect:
  "out (final (os_makedirs E p s)) = out s \<and>
   (\<forall>q. fs (final (os_makedirs E p s)) q \<noteq> fs s q \<longrightarrow>
      fs s q = None \<and> fs (final (os_makedirs E p s)) q = Some Dir \<and> (q = p \<or> ancestor q p)) \<and>
   (isl (os_makedirs E p s) \<longrightarrow> fs (final (os_makedirs E p s)) p = fs s p) \<and>
   (\<not> isl (os_makedirs E p s) \<longrightarrow> snd (makedirs_split p) \<noteq> ''.'' \<longrightarrow>
      fs (final (os_makedirs E p s)) p = Some Dir)"
proof (cases "makedirs E p (fs s)")
  case (Inl x)
  obtain e m where "x = (e, m)"
    by (cases x)
  with Inl makedirs_effect [of p "fs s" E] show ?thesis
    by (simp add: os_makedirs_def makedirs_ok_def)
next
  case (Inr m)
  with makedirs_effect [of p "fs s" E] show ?thesis
    by (simp add: os_makedirs_def makedirs_ok_def)
qed

lemma os_makedirs_out:
  "isl (os_makedirs E p (s\<lparr>out := x\<rparr>)) = isl (os_makedirs E p s)"
  "fs (final (os_makedirs E p (s\<lparr>out := x\<rparr>))) = fs (final (os_makedirs E p s))"
  "out (final (os_makedirs E p (s\<lparr>out := x\<rparr>))) = x"
  by (auto simp: os_makedirs_def split: sum.splits)

subsection \<open>Backup rotation\<close>

lemma rotate_attempt_cases:
  assumes "src \<noteq> dst"
  shows "(\<exists>e s'. rotate_attempt E src dst f s = Inl (e, s') \<and> is_OSError e \<and>
            fs s' src = fs s src \<and> out s' = out s \<and>
            (fs s' dst = fs s dst \<or> fs s' dst = None) \<and>
            (\<forall>p. p \<noteq> dst \<longrightarrow> fs s' p = fs s p)) \<or>
         (\<exists>s'. rotate_attempt E src dst f s = Inr s' \<and> fs s src \<noteq> None \<and>
            fs s' dst = fs s src \<and> fs s' src = None \<and> out s' = out s @ [BackedUp f] \<and>
            (\<forall>p. p \<noteq> dst \<longrightarrow> p \<noteq> src \<longrightarrow> fs s' p = fs s p))"
  using assms
  by (auto simp: rotate_attempt_def os_exists_def os_remove_def os_rename_def
           split: option.splits node.splits)

lemma rotate_attempt_same:
  assumes "fs t src = fs s src" "fs t dst = fs s dst"
  shows "map_sum fst (\<lambda>x. ()) (rotate_attempt E src dst f t) =
         map_sum fst (\<lambda>x. ()) (rotate_attempt E src dst f s)"
  using assms
  by (auto simp: rotate_attempt_def os_exists_def os_remove_def os_rename_def
           split: option.splits node.splits)

lemma backup_step_absent:
  "\<not> os_exists s (target_path d f) \<Longrightarrow>
   backup_step E d (backup_dir_of d) f (h, s) = Inr (h, s)"
  by (simp add: backup_step_def target_path_def)

lemma backup_step_refused:
  assumes "os_exists s (target_path d f)" "\<not> backup_dir_ready E d s"
  shows "\<exists>e s'. backup_step E d (backup_dir_of d) f (h, s) = Inl (e, s') \<and> out s' = out s \<and>
           (\<forall>p. fs s' p \<noteq> fs s p \<longrightarrow> ancestor p (backup_dir_of d) \<and> fs s p = None)"
proof -
  from assms(2) have n: "\<not> os_exists s (backup_dir_of d)"
    and i: "isl (os_makedirs E (backup_dir_of d) s)"
    by (simp_all add: backup_dir_ready_def)
  from i obtain e s' where m: "os_makedirs E (backup_dir_of d) s = Inl (e, s')"
    by (cases "os_makedirs E (backup_dir_of d) s") auto
  with os_makedirs_effect [of E "backup_dir_of d" s]
  have "out s' = out s \<and> (\<forall>p. fs s' p \<noteq> fs s p \<longrightarrow> ancestor p (backup_dir_of d) \<and> fs s p = None)"
    by auto
  moreover from assms(1) n m have "backup_step E d (backup_dir_of d) f (h, s) = Inl (e, s')"
    by (simp add: backup_step_def target_path_def)
  ultimately show ?thesis
    by blast
qed

lemma backup_step_ready:
  assumes "plain f" "os_exists s (target_path d f)" "backup_dir_ready E d s"
  shows "\<exists>s1. (\<forall>p. fs s1 p \<noteq> fs s p \<longrightarrow>
                 fs s p = None \<and> (p = backup_dir_of d \<or> ancestor p (backup_dir_of d))) \<and>
              (out s1 = out s \<or> out s1 = out s @ [CreatedBackupDir (backup_dir_of d)]) \<and>
              os_exists s1 (backup_dir_of d) \<and>
              backup_step E d (backup_dir_of d) f (h, s) =
                (case rotate_attempt E (target_path d f) (backup_path_of d f) f s1 of
                   Inr s2 \<Rightarrow> Inr (True, s2)
                 | Inl (e, s2) \<Rightarrow> Inr (True, say (BackupWarning f e) s2))"
proof (cases "os_exists s (backup_dir_of d)")
  case True
  have ne: "target_path d f \<noteq> backup_path_of d f"
    by (rule target_not_backup [OF assms(1) assms(1)])
  have "backup_step E d (backup_dir_of d) f (h, s) =
                (case rotate_attempt E (target_path d f) (backup_path_of d f) f s of
                   Inr s2 \<Rightarrow> Inr (True, s2)
                 | Inl (e, s2) \<Rightarrow> Inr (True, say (BackupWarning f e) s2))"
    using rotate_attempt_cases [OF ne, of E f s]
      assms(2) True
    by (auto simp: backup_step_def target_path_def backup_path_of_def)
  with True show ?thesis
    by (intro exI [of _ s]) simp
next
  case False
  have ne: "target_path d f \<noteq> backup_path_of d f"
    by (rule target_not_backup [OF assms(1) assms(1)])
  from False assms(3) obtain t where m: "os_makedirs E (backup_dir_of d) s = Inr t"
    by (cases "os_makedirs E (backup_dir_of d) s") (auto simp: backup_dir_ready_def)
  define s1 where "s1 = say (CreatedBackupDir (backup_dir_of d)) t"
  from m os_makedirs_effect [of E "backup_dir_of d" s]
  have t: "out t = out s"
    "\<forall>p. fs t p \<noteq> fs s p \<longrightarrow>
       fs s p = None \<and> (p = backup_dir_of d \<or> ancestor p (backup_dir_of d))"
    "fs t (backup_dir_of d) = Some Dir"
    by (auto simp: backup_dir_split)
  have "backup_step E d (backup_dir_of d) f (h, s) =
                (case rotate_attempt E (target_path d f) (backup_path_of d f) f s1 of
                   Inr s2 \<Rightarrow> Inr (True, s2)
                 | Inl (e, s2) \<Rightarrow> Inr (True, say (BackupWarning f e) s2))"
    using rotate_attempt_cases [OF ne, of E f s1]
      assms(2) False m
    by (auto simp: backup_step_def target_path_def backup_path_of_def s1_def)
  moreover from t have "os_exists s1 (backup_dir_of d)"
    by (simp add: s1_def os_exists_def)
  moreover from t have "\<forall>p. fs s1 p \<noteq> fs s p \<longrightarrow>
                 fs s p = None \<and> (p = backup_dir_of d \<or> ancestor p (backup_dir_of d))"
    by (simp add: s1_def)
  moreover from t have "out s1 = out s @ [CreatedBackupDir (backup_dir_of d)]"
    by (simp add: s1_def)
  ultimately show ?thesis
    by blast
qed

lemma rotation_outcome_cong:
  assumes "fs t (target_path d f) = fs s (target_path d f)"
    "fs t (backup_path_of d f) = fs s (backup_path_of d f)"
  shows "rotation_outcome E d f t s' = rotation_outcome E d f s s'"
  using rotate_attempt_same [OF assms, of E f] assms(1)
  by (auto simp: rotation_outcome_def split: sum.splits)

lemma rotation_outcome_later:
  assumes "rotation_outcome E d f s s1"
    "fs s2 (target_path d f) = fs s1 (target_path d f)"
    "fs s2 (backup_path_of d f) = fs s1 (backup_path_of d f)"
    "set (out s1) \<subseteq> set (out s2)"
  shows "rotation_outcome E d f s s2"
  using assms
  by (auto simp: rotation_outcome_def split: sum.splits)

lemma backup_step_outcome:
  assumes "plain f" "os_exists s (target_path d f)" "backup_dir_ready E d s"
  shows "\<exists>s'. backup_step E d (backup_dir_of d) f (h, s) = Inr (True, s') \<and>
              rotation_outcome E d f s s'"
proof -
  have ne: "target_path d f \<noteq> backup_path_of d f"
    by (rule target_not_backup [OF assms(1) assms(1)])
  from backup_step_ready [OF assms, of h] obtain s1 where
    s1: "\<forall>p. fs s1 p \<noteq> fs s p \<longrightarrow>
           fs s p = None \<and> (p = backup_dir_of d \<or> ancestor p (backup_dir_of d))"
    and st: "backup_step E d (backup_dir_of d) f (h, s) =
                (case rotate_attempt E (target_path d f) (backup_path_of d f) f s1 of
                   Inr s2 \<Rightarrow> Inr (True, s2)
                 | Inl (e, s2) \<Rightarrow> Inr (True, say (BackupWarning f e) s2))"
    by blast
  from s1 have same: "fs s1 (target_path d f) = fs s (target_path d f)"
    "fs s1 (backup_path_of d f) = fs s (backup_path_of d f)"
    using target_not_backup_dir [OF assms(1), of d] backup_path_not_dir [OF assms(1), of d]
      target_not_ancestor_backup [OF assms(1), of d]
      backup_path_not_ancestor_backup [OF assms(1), of d]
    by blast+
  have "\<exists>s'. backup_step E d (backup_dir_of d) f (h, s) = Inr (True, s') \<and>
              rotation_outcome E d f s1 s'"
    using rotate_attempt_cases [OF ne, of E f s1] st
    by (auto simp: rotation_outcome_def)
  then show ?thesis
    by (simp add: rotation_outcome_cong [OF same])
qed

lemma backup_step_general:
  assumes "plain f"
  shows "(\<forall>p. p \<noteq> target_path d f \<longrightarrow> p \<noteq> backup_path_of d f \<longrightarrow> p \<noteq> backup_dir_of d \<longrightarrow>
            \<not> ancestor p (backup_dir_of d) \<longrightarrow>
            fs (after (backup_step E d (backup_dir_of d) f (h, s))) p = fs s p) \<and>
         (\<exists>evs. out (after (backup_step E d (backup_dir_of d) f (h, s))) = out s @ evs \<and>
            attempted evs = []) \<and>
         (backup_dir_ready E d s \<longrightarrow>
            backup_dir_ready E d (after (backup_step E d (backup_dir_of d) f (h, s))) \<and>
            \<not> isl (backup_step E d (backup_dir_of d) f (h, s)))"
proof (cases "os_exists s (target_path d f)")
  case False
  then show ?thesis
    by (simp add: backup_step_absent)
next
  case True
  show ?thesis
  proof (cases "backup_dir_ready E d s")
    case False
    with backup_step_refused [OF True False, of h] show ?thesis
      by auto
  next
    case ready: True
    have ne: "target_path d f \<noteq> backup_path_of d f"
      by (rule target_not_backup [OF assms(1) assms(1)])
    from backup_step_ready [OF assms True ready, of h] obtain s1 where
      s1: "\<forall>p. fs s1 p \<noteq> fs s p \<longrightarrow>
             fs s p = None \<and> (p = backup_dir_of d \<or> ancestor p (backup_dir_of d))"
      and os1: "out s1 = out s \<or> out s1 = out s @ [CreatedBackupDir (backup_dir_of d)]"
      and ex: "os_exists s1 (backup_dir_of d)"
      and st: "backup_step E d (backup_dir_of d) f (h, s) =
                (case rotate_attempt E (target_path d f) (backup_path_of d f) f s1 of
                   Inr s2 \<Rightarrow> Inr (True, s2)
                 | Inl (e, s2) \<Rightarrow> Inr (True, say (BackupWarning f e) s2))"
      by blast
    from s1 have f1: "\<forall>p. p \<noteq> backup_dir_of d \<longrightarrow> \<not> ancestor p (backup_dir_of d) \<longrightarrow>
                        fs s1 p = fs s p"
      by blast
    from os1 have o1: "\<exists>evs. out s1 = out s @ evs \<and> attempted evs = []"
      by auto
    from ex have r1: "fs s1 (backup_dir_of d) \<noteq> None"
      by (simp add: os_exists_def)
    show ?thesis
      using rotate_attempt_cases [OF ne, of E f s1] st f1 o1 r1
        target_not_backup_dir [OF assms(1), of d] backup_path_not_dir [OF assms(1), of d]
      by (auto simp: backup_dir_ready_def os_exists_def)
  qed
qed

lemma backup_loop_general:
  assumes "\<forall>g \<in> set ns. plain g"
  shows "(\<forall>p. (\<forall>g \<in> set ns. p \<noteq> target_path d g \<and> p \<noteq> backup_path_of d g) \<longrightarrow>
              p \<noteq> backup_dir_of d \<longrightarrow> \<not> ancestor p (backup_dir_of d) \<longrightarrow>
            fs (after (backup_loop E d (backup_dir_of d) ns (h, s))) p = fs s p) \<and>
         (\<exists>evs. out (after (backup_loop E d (backup_dir_of d) ns (h, s))) = out s @ evs \<and>
            attempted evs = []) \<and>
         (backup_dir_ready E d s \<longrightarrow>
            backup_dir_ready E d (after (backup_loop E d (backup_dir_of d) ns (h, s))) \<and>
            \<not> isl (backup_loop E d (backup_dir_of d) ns (h, s)))"
  using assms
proof (induction ns arbitrary: h s)
  case Nil
  then show ?case by simp
next
  case (Cons g ns)
  then have pg: "plain g" and pns: "\<forall>g \<in> set ns. plain g"
    by simp_all
  note step = backup_step_general [OF pg, of d E h s]
  show ?case
  proof (cases "backup_step E d (backup_dir_of d) g (h, s)")
    case (Inl x)
    with step show ?thesis
      by (cases x) auto
  next
    case (Inr hs')
    obtain h' s' where hs': "hs' = (h', s')"
      by (cases hs')
    note ih = Cons.IH [OF pns, of h' s']
    from step Inr hs' have
      f1: "\<forall>p. p \<noteq> target_path d g \<longrightarrow> p \<noteq> backup_path_of d g \<longrightarrow> p \<noteq> backup_dir_of d \<longrightarrow>
            \<not> ancestor p (backup_dir_of d) \<longrightarrow> fs s' p = fs s p"
      and o1: "\<exists>evs. out s' = out s @ evs \<and> attempted evs = []"
      and r1: "backup_dir_ready E d s \<longrightarrow> backup_dir_ready E d s'"
      by simp_all
    have l: "backup_loop E d (backup_dir_of d) (g # ns) (h, s) =
             backup_loop E d (backup_dir_of d) ns (h', s')"
      using Inr hs' by simp
    show ?thesis
      unfolding l
    proof (intro conjI allI impI)
      fix p
      assume "\<forall>g \<in> set (g # ns). p \<noteq> target_path d g \<and> p \<noteq> backup_path_of d g"
        and "p \<noteq> backup_dir_of d" and "\<not> ancestor p (backup_dir_of d)"
      with ih f1 show "fs (after (backup_loop E d (backup_dir_of d) ns (h', s'))) p = fs s p"
        by simp
    next
      from ih obtain evs2 where
        "out (after (backup_loop E d (backup_dir_of d) ns (h', s'))) = out s' @ evs2"
        "attempted evs2 = []"
        by blast
      moreover from o1 obtain evs1 where "out s' = out s @ evs1" "attempted evs1 = []"
        by blast
      ultimately have
        "out (after (backup_loop E d (backup_dir_of d) ns (h', s'))) = out s @ (evs1 @ evs2) \<and>
         attempted (evs1 @ evs2) = []"
        by simp
      then show "\<exists>evs. out (after (backup_loop E d (backup_dir_of d) ns (h', s'))) =
                   out s @ evs \<and> attempted evs = []"
        by blast
    next
      assume "backup_dir_ready E d s"
      with r1 ih show "backup_dir_ready E d (after (backup_loop E d (backup_dir_of d) ns (h', s')))"
        and "\<not> isl (backup_loop E d (backup_dir_of d) ns (h', s'))"
        by simp_all
    qed
  qed
qed

lemma backup_not_target: "plain f \<Longrightarrow> plain g \<Longrightarrow> backup_path_of d g \<noteq> target_path d f"
  using target_not_backup [of f g d] by simp

lemma backup_loop_outcome:
  assumes "\<forall>g \<in> set ns. plain g" "distinct ns" "f \<in> set ns"
    "backup_dir_ready E d s" "os_exists s (target_path d f)"
  shows "rotation_outcome E d f s (after (backup_loop E d (backup_dir_of d) ns (h, s)))"
  using assms
proof (induction ns arbitrary: h s)
  case Nil
  then show ?case by simp
next
  case (Cons g ns)
  then have pg: "plain g" and pns: "\<forall>g \<in> set ns. plain g" and pf: "plain f"
    by auto
  note step = backup_step_general [OF pg, of d E h s]
  from step Cons.prems(4) obtain h' s' where
    st: "backup_step E d (backup_dir_of d) g (h, s) = Inr (h', s')"
    by (cases "backup_step E d (backup_dir_of d) g (h, s)") auto
  with step Cons.prems(4) have
    f1: "\<forall>p. p \<noteq> target_path d g \<longrightarrow> p \<noteq> backup_path_of d g \<longrightarrow> p \<noteq> backup_dir_of d \<longrightarrow>
            \<not> ancestor p (backup_dir_of d) \<longrightarrow> fs s' p = fs s p"
    and r1: "backup_dir_ready E d s'"
    by simp_all
  have l: "backup_loop E d (backup_dir_of d) (g # ns) (h, s) =
           backup_loop E d (backup_dir_of d) ns (h', s')"
    using st by simp
  note rest = backup_loop_general [OF pns, of d E h' s']
  show ?case
  proof (cases "f = g")
    case True
    with Cons.prems(2) have nf: "\<forall>g \<in> set ns. f \<noteq> g"
      by auto
    from backup_step_outcome [OF pf Cons.prems(5,4), of h] st True
    have o: "rotation_outcome E d f s s'"
      by simp
    have a: "\<forall>g \<in> set ns. target_path d f \<noteq> target_path d g \<and>
               target_path d f \<noteq> backup_path_of d g"
      using nf pns pf by (simp add: target_path_inj target_not_backup)
    have b: "\<forall>g \<in> set ns. backup_path_of d f \<noteq> target_path d g \<and>
               backup_path_of d f \<noteq> backup_path_of d g"
      using nf pns pf by (simp add: backup_path_inj backup_not_target)
    from rest a target_not_backup_dir [OF pf, of d] target_not_ancestor_backup [OF pf, of d]
    have 1: "fs (after (backup_loop E d (backup_dir_of d) ns (h', s'))) (target_path d f) =
             fs s' (target_path d f)"
      by blast
    from rest b backup_path_not_dir [OF pf, of d] backup_path_not_ancestor_backup [OF pf, of d]
    have 2: "fs (after (backup_loop E d (backup_dir_of d) ns (h', s'))) (backup_path_of d f) =
             fs s' (backup_path_of d f)"
      by blast
    from rest have 3: "set (out s') \<subseteq>
        set (out (after (backup_loop E d (backup_dir_of d) ns (h', s'))))"
      by auto
    show ?thesis
      unfolding l by (rule rotation_outcome_later [OF o 1 2 3])
  next
    case False
    with Cons.prems(3) have fin: "f \<in> set ns"
      by simp
    from Cons.prems(2) have dn: "distinct ns"
      by simp
    from False pf pg f1 have same: "fs s' (target_path d f) = fs s (target_path d f)"
      "fs s' (backup_path_of d f) = fs s (backup_path_of d f)"
      using target_not_backup_dir [OF pf, of d] backup_path_not_dir [OF pf, of d]
        target_not_ancestor_backup [OF pf, of d] backup_path_not_ancestor_backup [OF pf, of d]
      by (simp_all add: target_path_inj backup_path_inj target_not_backup backup_not_target)
    from same(1) Cons.prems(5) have ex: "os_exists s' (target_path d f)"
      by (simp add: os_exists_def)
    from Cons.IH [OF pns dn fin r1 ex, of h']
    show ?thesis
      unfolding l by (simp add: rotation_outcome_cong [OF same])
  qed
qed

lemma target_names: "map fst DATABASE_URLS = [''main.cvd'', ''daily.cvd'', ''bytecode.cvd'']"
  by (simp add: DATABASE_URLS_def)

lemma plain_target_names: "\<forall>g \<in> set (map fst DATABASE_URLS). plain g"
  using plain_targets by blast

lemma distinct_target_names: "distinct (map fst DATABASE_URLS)"
  by (simp add: target_names)

lemma backup_existing_files_after:
  "\<exists>r evs. snd (backup_existing_files E d s) =
             (after (backup_loop E d (backup_dir_of d) (map fst DATABASE_URLS) (False, s)))
               \<lparr>out := out (after (backup_loop E d (backup_dir_of d) (map fst DATABASE_URLS)
                  (False, s))) @ evs\<rparr> \<and>
           attempted evs = []"
  by (auto simp: backup_existing_files_def backup_dir_of_def [symmetric] Let_def say_def
           split: sum.splits prod.splits intro: exI [of _ "[]"])

lemma backup_step_target:
  assumes "plain f"
  shows "fs (after (backup_step E d (backup_dir_of d) f (h, s))) (target_path d f) =
           fs s (target_path d f) \<or>
         fs (after (backup_step E d (backup_dir_of d) f (h, s))) (target_path d f) = None"
proof (cases "os_exists s (target_path d f)")
  case False
  then show ?thesis
    by (simp add: backup_step_absent)
next
  case True
  show ?thesis
  proof (cases "backup_dir_ready E d s")
    case False
    with backup_step_refused [OF True False, of h] target_not_ancestor_backup [OF assms, of d]
    have "fs (after (backup_step E d (backup_dir_of d) f (h, s))) (target_path d f) =
           fs s (target_path d f)"
      by force
    then show ?thesis ..
  next
    case ready: True
    from backup_step_outcome [OF assms True ready, of h] obtain s' where
      st: "backup_step E d (backup_dir_of d) f (h, s) = Inr (True, s')"
      and o: "rotation_outcome E d f s s'"
      by blast
    from o have "fs s' (target_path d f) = fs s (target_path d f) \<or>
                 fs s' (target_path d f) = None"
      by (auto simp: rotation_outcome_def split: sum.splits)
    with st show ?thesis
      by simp
  qed
qed

lemma backup_step_creates:
  assumes "plain f" "fs (after (backup_step E d (backup_dir_of d) f (h, s))) p \<noteq> None"
  shows "fs s p \<noteq> None \<or> p = backup_dir_of d \<or> p = backup_path_of d f \<or>
         ancestor p (backup_dir_of d)"
proof (cases "p = target_path d f")
  case True
  with backup_step_target [OF assms(1), of E d h s] assms(2) show ?thesis
    by auto
next
  case False
  with backup_step_general [OF assms(1), of d E h s] assms(2) show ?thesis
    by auto
qed

lemma backup_loop_creates:
  assumes "\<forall>g \<in> set ns. plain g"
    "fs (after (backup_loop E d (backup_dir_of d) ns (h, s))) p \<noteq> None"
  shows "fs s p \<noteq> None \<or> p = backup_dir_of d \<or> p \<in> backup_path_of d ` set ns \<or>
         ancestor p (backup_dir_of d)"
  using assms
proof (induction ns arbitrary: h s)
  case Nil
  then show ?case by simp
next
  case (Cons g ns)
  then have pg: "plain g" and pns: "\<forall>g \<in> set ns. plain g"
    by simp_all
  show ?case
  proof (cases "backup_step E d (backup_dir_of d) g (h, s)")
    case (Inl x)
    with Cons.prems(2) backup_step_creates [OF pg, of E d h s p] show ?thesis
      by (cases x) auto
  next
    case (Inr hs')
    obtain h' s' where hs': "hs' = (h', s')"
      by (cases hs')
    with Inr Cons.prems(2)
    have "fs (after (backup_loop E d (backup_dir_of d) ns (h', s'))) p \<noteq> None"
      by simp
    from Cons.IH [OF pns this]
    have "fs s' p \<noteq> None \<or> p = backup_dir_of d \<or> p \<in> backup_path_of d ` set ns \<or>
          ancestor p (backup_dir_of d)" .
    with backup_step_creates [OF pg, of E d h s p] Inr hs' show ?thesis
      by auto
  qed
qed

lemma backup_existing_files_fs:
  "fs (snd (backup_existing_files E d s)) =
   fs (after (backup_loop E d (backup_dir_of d) (map fst DATABASE_URLS) (False, s)))"
  by (auto simp: backup_existing_files_def backup_dir_of_def [symmetric] Let_def
           split: sum.splits prod.splits)

lemma backup_existing_files_out_after:
  "\<exists>evs. out (snd (backup_existing_files E d s)) =
           out (after (backup_loop E d (backup_dir_of d) (map fst DATABASE_URLS) (False, s)))
             @ evs \<and> attempted evs = []"
  by (auto simp: backup_existing_files_def backup_dir_of_def [symmetric] Let_def
           split: sum.splits prod.splits)

lemma backup_existing_files_frame:
  assumes "\<forall>g \<in> set (map fst DATABASE_URLS). p \<noteq> target_path d g \<and> p \<noteq> backup_path_of d g"
    "p \<noteq> backup_dir_of d" "\<not> ancestor p (backup_dir_of d)"
  shows "fs (snd (backup_existing_files E d s)) p = fs s p"
proof -
  have "\<forall>p. (\<forall>g \<in> set (map fst DATABASE_URLS).
               p \<noteq> target_path d g \<and> p \<noteq> backup_path_of d g) \<longrightarrow>
            p \<noteq> backup_dir_of d \<longrightarrow> \<not> ancestor p (backup_dir_of d) \<longrightarrow>
            fs (after (backup_loop E d (backup_dir_of d) (map fst DATABASE_URLS) (False, s))) p =
              fs s p"
    by (rule backup_loop_general [OF plain_target_names, THEN conjunct1])
  with assms show ?thesis
    unfolding backup_existing_files_fs by blast
qed


lemma backup_existing_files_outcome:
  assumes "f \<in> set (map fst DATABASE_URLS)" "backup_dir_ready E d s"
    "os_exists s (target_path d f)"
  shows "rotation_outcome E d f s (snd (backup_existing_files E d s))"
proof -
  note o = backup_loop_outcome [OF plain_target_names distinct_target_names assms, of False]
  from backup_existing_files_out_after [of E d s]
  have "set (out (after (backup_loop E d (backup_dir_of d) (map fst DATABASE_URLS) (False, s))))
          \<subseteq> set (out (snd (backup_existing_files E d s)))"
    by auto
  then show ?thesis
    by (intro rotation_outcome_later [OF o]) (simp_all add: backup_existing_files_fs)
qed

lemma backup_existing_files_creates:
  assumes "fs (snd (backup_existing_files E d s)) p \<noteq> None"
  shows "fs s p \<noteq> None \<or> p = backup_dir_of d \<or>
         p \<in> backup_path_of d ` set (map fst DATABASE_URLS) \<or> ancestor p (backup_dir_of d)"
  using assms unfolding backup_existing_files_fs
  by (rule backup_loop_creates [OF plain_target_names])

subsection \<open>The download loop\<close>

lemma backup_events_append [simp]:
  "backup_events (xs @ ys) = backup_events xs @ backup_events ys"
  by (induction xs rule: backup_events.induct) auto

lemma copy_loop_out:
  "\<exists>evs. out (final (copy_loop E dest tot segs d s)) = out s @ evs \<and> backup_events evs = []"
proof (induction E dest tot segs d s rule: copy_loop.induct)
  case (1 E dest tot segs d s)
  obtain r segs' where rd: "response_read 8192 segs = (r, segs')"
    by force
  show ?case
  proof (cases r)
    case (Inl e)
    with rd show ?thesis
      by (subst copy_loop.simps) simp
  next
    case (Inr chunk)
    show ?thesis
    proof (cases "chunk = []")
      case True
      with rd Inr show ?thesis
        by (subst copy_loop.simps) simp
    next
      case False
      show ?thesis
      proof (cases "file_write E dest d chunk s")
        case (Inl x)
        with rd Inr False show ?thesis
          by (subst copy_loop.simps) (auto dest!: file_write_cases)
      next
        case w: (Inr s1)
        define s2 where "s2 = (if 0 < tot
           then say (Progress (d + int (length chunk)) tot) s1 else s1)"
        from "1.IH" [OF rd [symmetric] Inr False w] obtain evs where
          e: "out (final (copy_loop E dest tot segs' (d + int (length chunk)) s2)) =
                out s2 @ evs" "backup_events evs = []"
          unfolding s2_def by blast
        from w have "out s1 = out s"
          by (auto dest!: file_write_cases)
        then obtain evs0 where e0: "out s2 = out s @ evs0" "backup_events evs0 = []"
          by (cases "0 < tot") (simp_all add: s2_def)
        have c: "copy_loop E dest tot segs d s =
                 copy_loop E dest tot segs' (d + int (length chunk)) s2"
          using rd Inr False w by (subst copy_loop.simps) (simp add: s2_def)
        from e e0 have "out (final (copy_loop E dest tot segs d s)) = out s @ (evs0 @ evs) \<and>
           backup_events (evs0 @ evs) = []"
          by (simp add: c)
        then show ?thesis
          by blast
      qed
    qed
  qed
qed

lemma download_file_out:
  "\<exists>evs. out (snd (download_file E url dest s)) = out s @ evs \<and> backup_events evs = []"
proof -
  have h: "\<exists>evs. out (download_handler e t) = out t @ evs \<and> backup_events evs = []" for e t
    by (cases e) (simp_all add: Let_def)
  have a: "\<exists>evs. out (final (download_attempt E url dest s)) = out s @ evs \<and>
             backup_events evs = []"
  proof -
    from download_attempt_final [of E url dest s] show ?thesis
    proof (elim disjE exE conjE)
      assume "final (download_attempt E url dest s) = say (Downloading (basename dest)) s"
      then show ?thesis by simp
    next
      fix resp tot s1
      assume s1: "s1 = (say (Downloading (basename dest)) s)
             \<lparr>fs := (fs (say (Downloading (basename dest)) s))(dest \<mapsto> File [])\<rparr>"
        and f: "final (download_attempt E url dest s) =
                final (copy_loop E dest tot (body resp) 0 s1)"
      from copy_loop_out [of E dest tot "body resp" 0 s1] obtain evs where
        "out (final (copy_loop E dest tot (body resp) 0 s1)) = out s1 @ evs"
        "backup_events evs = []"
        by blast
      with s1 f have "out (final (download_attempt E url dest s)) =
            out s @ ([Downloading (basename dest)] @ evs) \<and>
          backup_events ([Downloading (basename dest)] @ evs) = []"
        by simp
      then show ?thesis
        by blast
    next
      fix resp tot s1
      assume s1: "s1 = (say (Downloading (basename dest)) s)
             \<lparr>fs := (fs (say (Downloading (basename dest)) s))(dest \<mapsto> File [])\<rparr>"
        and f: "final (download_attempt E url dest s) =
                say (Downloaded (basename dest)) (final (copy_loop E dest tot (body resp) 0 s1))"
      from copy_loop_out [of E dest tot "body resp" 0 s1] obtain evs where
        "out (final (copy_loop E dest tot (body resp) 0 s1)) = out s1 @ evs"
        "backup_events evs = []"
        by blast
      with s1 f have "out (final (download_attempt E url dest s)) =
            out s @ ([Downloading (basename dest)] @ evs @ [Downloaded (basename dest)]) \<and>
          backup_events ([Downloading (basename dest)] @ evs @ [Downloaded (basename dest)]) = []"
        by simp
      then show ?thesis
        by blast
    qed
  qed
  show ?thesis
  proof (cases "download_attempt E url dest s")
    case (Inr s')
    with a show ?thesis
      by (simp add: download_file_def)
  next
    case (Inl x)
    obtain e t where x: "x = (e, t)"
      by (cases x)
    from a Inl x obtain evs1 where 1: "out t = out s @ evs1" "backup_events evs1 = []"
      by auto
    from h [of e t] obtain evs2 where 2: "out (download_handler e t) = out t @ evs2"
      "backup_events evs2 = []"
      by blast
    from 1 2 have "out (snd (download_file E url dest s)) = out s @ (evs1 @ evs2) \<and>
       backup_events (evs1 @ evs2) = []"
      using Inl x by (simp add: download_file_def)
    then show ?thesis
      by blast
  qed
qed

lemma download_all_step:
  "download_all E d ((f, u) # rest) (c, s) =
   download_all E d rest
     (if fst (download_file E u (target_path d f) s) then c + 1 else c,
      say BlankLine (snd (download_file E u (target_path d f) s)))"
  by (simp add: Let_def target_path_def)

lemma download_outcomes_step:
  "download_outcomes E d ((f, u) # rest) s =
   fst (download_file E u (target_path d f) s) #
   download_outcomes E d rest (say BlankLine (snd (download_file E u (target_path d f) s)))"
  by (simp add: target_path_def)

lemma download_all_general:
  assumes "\<forall>x \<in> set ts. plain (fst x)"
  shows "(\<forall>p. (\<forall>x \<in> set ts. p \<noteq> target_path d (fst x)) \<longrightarrow>
            fs (snd (download_all E d ts (c, s))) p = fs s p) \<and>
         attempted (out (snd (download_all E d ts (c, s)))) = attempted (out s) @ map fst ts \<and>
         (\<exists>evs. out (snd (download_all E d ts (c, s))) = out s @ evs \<and>
            backup_events evs = []) \<and>
         fst (download_all E d ts (c, s)) =
           c + int (length (filter (\<lambda>ok. ok) (download_outcomes E d ts s))) \<and>
         length (download_outcomes E d ts s) = length ts"
  using assms
proof (induction ts arbitrary: c s)
  case Nil
  then show ?case by simp
next
  case (Cons x ts)
  obtain f u where x: "x = (f, u)"
    by (cases x)
  from Cons.prems x have pf: "plain f" and pts: "\<forall>x \<in> set ts. plain (fst x)"
    by simp_all
  define c' where "c' = (if fst (download_file E u (target_path d f) s) then c + 1 else c)"
  define s' where "s' = say BlankLine (snd (download_file E u (target_path d f) s))"
  note ih = Cons.IH [OF pts, of c' s']
  have da: "download_all E d (x # ts) (c, s) = download_all E d ts (c', s')"
    unfolding x c'_def s'_def by (rule download_all_step)
  have dout: "download_outcomes E d (x # ts) s =
            fst (download_file E u (target_path d f) s) # download_outcomes E d ts s'"
    unfolding x s'_def by (rule download_outcomes_step)
  have fr: "\<forall>p. p \<noteq> target_path d f \<longrightarrow> fs s' p = fs s p"
    by (simp add: s'_def download_file_frame)
  have at: "attempted (out s') = attempted (out s) @ [f]"
    by (simp add: s'_def download_file_attempted basename_target [OF pf])
  from download_file_out [of E u "target_path d f" s] obtain evs1 where
    o1: "out s' = out s @ (evs1 @ [BlankLine])" "backup_events (evs1 @ [BlankLine]) = []"
    by (auto simp: s'_def)
  from ih obtain evs2 where
    o2: "out (snd (download_all E d ts (c', s'))) = out s' @ evs2" "backup_events evs2 = []"
    by blast
  show ?case
    unfolding da dout
  proof (intro conjI allI impI)
    fix p assume "\<forall>x \<in> set (x # ts). p \<noteq> target_path d (fst x)"
    with ih fr x show "fs (snd (download_all E d ts (c', s'))) p = fs s p"
      by simp
  next
    from ih at x show "attempted (out (snd (download_all E d ts (c', s')))) =
        attempted (out s) @ map fst (x # ts)"
      by simp
  next
    from o1 o2 have "out (snd (download_all E d ts (c', s'))) =
        out s @ ((evs1 @ [BlankLine]) @ evs2) \<and>
        backup_events ((evs1 @ [BlankLine]) @ evs2) = []"
      by simp
    then show "\<exists>evs. out (snd (download_all E d ts (c', s'))) = out s @ evs \<and>
        backup_events evs = []"
      by blast
  next
    from ih show "fst (download_all E d ts (c', s')) =
        c + int (length (filter (\<lambda>ok. ok)
          (fst (download_file E u (target_path d f) s) # download_outcomes E d ts s')))"
      by (simp add: c'_def)
  next
    from ih show "length (fst (download_file E u (target_path d f) s) #
        download_outcomes E d ts s') = length (x # ts)"
      by simp
  qed
qed

lemma download_all_content:
  assumes "\<forall>x \<in> set ts. plain (fst x)" "distinct (map fst ts)"
    "(x, True) \<in> set (zip ts (download_outcomes E d ts s))"
  shows "\<exists>resp. urlopen E (snd x) = Inr resp \<and>
           fs (snd (download_all E d ts (c, s))) (target_path d (fst x)) =
             Some (File (received (body resp)))"
  using assms
proof (induction ts arbitrary: c s)
  case Nil
  then show ?case by simp
next
  case (Cons y ts)
  obtain f u where y: "y = (f, u)"
    by (cases y)
  from Cons.prems y have pf: "plain f" and pts: "\<forall>x \<in> set ts. plain (fst x)"
    and dts: "distinct (map fst ts)" and nf: "\<forall>x \<in> set ts. fst x \<noteq> f"
    by auto
  define c' where "c' = (if fst (download_file E u (target_path d f) s) then c + 1 else c)"
  define s' where "s' = say BlankLine (snd (download_file E u (target_path d f) s))"
  have da: "download_all E d (y # ts) (c, s) = download_all E d ts (c', s')"
    unfolding y c'_def s'_def by (rule download_all_step)
  have dout: "download_outcomes E d (y # ts) s =
            fst (download_file E u (target_path d f) s) # download_outcomes E d ts s'"
    unfolding y s'_def by (rule download_outcomes_step)
  from Cons.prems(3) have
    "(x = y \<and> fst (download_file E u (target_path d f) s)) \<or>
     (x, True) \<in> set (zip ts (download_outcomes E d ts s'))"
    unfolding dout by auto
  then show ?case
  proof
    assume a: "x = y \<and> fst (download_file E u (target_path d f) s)"
    with download_file_True [of E u "target_path d f" s] obtain resp where
      r: "urlopen E u = Inr resp"
      "fs s' (target_path d f) = Some (File (received (body resp)))"
      by (auto simp: s'_def)
    from nf pf pts have "\<forall>x \<in> set ts. target_path d f \<noteq> target_path d (fst x)"
      by (auto simp: target_path_inj)
    with download_all_general [OF pts, of d E c' s']
    have "fs (snd (download_all E d ts (c', s'))) (target_path d f) = fs s' (target_path d f)"
      by blast
    with r a y show ?thesis
      unfolding da by simp
  next
    assume "(x, True) \<in> set (zip ts (download_outcomes E d ts s'))"
    from Cons.IH [OF pts dts this, of c'] show ?thesis
      unfolding da .
  qed
qed


subsection \<open>The run controller\<close>

lemma plain_targets_fst: "\<forall>x \<in> set DATABASE_URLS. plain (fst x)"
  using plain_target_names by simp

lemma all_three_True:
  "length os = 3 \<Longrightarrow> (int (length (filter (\<lambda>ok. ok) os)) = 3) = (os = [True, True, True])"
proof -
  assume "length os = 3"
  then obtain a b c where "os = [a, b, c]"
    by (cases os; cases "tl os"; cases "tl (tl os)") auto
  then show ?thesis
    by auto
qed

lemma fetch_start_announce: "fetch_start E d backup s = announce d (backup_phase E d backup s)"
  by (simp add: fetch_start_def announce_def)

lemma fetch_phase_fst:
  "fst (fetch_phase E d s) = (fst (download_all E d DATABASE_URLS (0, announce d s)) = 3)"
  by (simp add: fetch_phase_def announce_def Let_def DATABASE_URLS_def)

lemma fetch_phase_fs:
  "fs (snd (fetch_phase E d s)) = fs (snd (download_all E d DATABASE_URLS (0, announce d s)))"
  by (simp add: fetch_phase_def announce_def Let_def)

lemma fetch_phase_out:
  "\<exists>evs. out (snd (fetch_phase E d s)) =
           out (snd (download_all E d DATABASE_URLS (0, announce d s))) @ evs \<and>
         attempted evs = [] \<and> backup_events evs = []"
  by (simp add: fetch_phase_def announce_def Let_def)

lemma fetch_phase_outcomes:
  "fst (fetch_phase E d s) =
     (download_outcomes E d DATABASE_URLS (announce d s) = [True, True, True])"
proof -
  note g = download_all_general [OF plain_targets_fst, of d E 0 "announce d s"]
  from g have "length (download_outcomes E d DATABASE_URLS (announce d s)) = 3"
    by (simp add: DATABASE_URLS_def)
  from all_three_True [OF this] g show ?thesis
    by (simp add: fetch_phase_fst)
qed

lemma fetch_phase_frame:
  assumes "\<forall>x \<in> set DATABASE_URLS. p \<noteq> target_path d (fst x)"
  shows "fs (snd (fetch_phase E d s)) p = fs s p"
proof -
  from download_all_general [OF plain_targets_fst, of d E 0 "announce d s"] assms
  have "fs (snd (download_all E d DATABASE_URLS (0, announce d s))) p = fs (announce d s) p"
    by blast
  then show ?thesis
    by (simp add: fetch_phase_fs announce_def)
qed


lemma fetch_phase_backup_events:
  "backup_events (out (snd (fetch_phase E d s))) = backup_events (out s)"
proof -
  from download_all_general [OF plain_targets_fst, of d E 0 "announce d s"] obtain evs1 where
    "out (snd (download_all E d DATABASE_URLS (0, announce d s))) = out (announce d s) @ evs1"
    "backup_events evs1 = []"
    by blast
  moreover from fetch_phase_out [of E d s] obtain evs where
    "out (snd (fetch_phase E d s)) =
       out (snd (download_all E d DATABASE_URLS (0, announce d s))) @ evs"
    "backup_events evs = []"
    by blast
  ultimately show ?thesis
    by (simp add: announce_def)
qed


lemma prepare_dir_cases:
  "(os_exists s d \<and> prepare_dir E d s = Inr s) \<or>
   (\<not> os_exists s d \<and> \<not> isl (os_makedirs E d s) \<and>
    (\<exists>s1. prepare_dir E d s = Inr s1 \<and>
       out s1 = out s @ [DirMissing d, CreatingDir, CreatedDir d] \<and>
       (\<forall>p. fs s1 p \<noteq> fs s p \<longrightarrow>
          fs s p = None \<and> fs s1 p = Some Dir \<and> (p = d \<or> ancestor p d)))) \<or>
   (\<not> os_exists s d \<and> isl (os_makedirs E d s) \<and>
    (\<exists>e s'. prepare_dir E d s = Inl s' \<and>
       out s' = out s @ [DirMissing d, CreatingDir, CreateDirFailed e] \<and>
       (\<forall>p. fs s' p \<noteq> fs s p \<longrightarrow> ancestor p d \<and> fs s p = None \<and> fs s' p = Some Dir)))"
proof (cases "os_exists s d")
  case True
  then show ?thesis
    by (simp add: prepare_dir_def)
next
  case False
  define s0 where "s0 = say CreatingDir (say (DirMissing d) s)"
  have i: "isl (os_makedirs E d s0) = isl (os_makedirs E d s)"
    and f: "fs (final (os_makedirs E d s0)) = fs (final (os_makedirs E d s))"
    and o: "out (final (os_makedirs E d s0)) = out s @ [DirMissing d, CreatingDir]"
    by (simp_all add: s0_def os_makedirs_out say_def)
  note eff = os_makedirs_effect [of E d s]
  show ?thesis
  proof (cases "os_makedirs E d s0")
    case (Inl x)
    obtain e s1 where x: "x = (e, s1)"
      by (cases x)
    from Inl x i have il: "isl (os_makedirs E d s)"
      by simp
    from Inl x f o have s1: "fs s1 = fs (final (os_makedirs E d s))"
      "out s1 = out s @ [DirMissing d, CreatingDir]"
      by simp_all
    from False Inl x have "prepare_dir E d s = Inl (say (CreateDirFailed e) s1)"
      by (simp add: prepare_dir_def s0_def)
    moreover from s1 have "out (say (CreateDirFailed e) s1) =
        out s @ [DirMissing d, CreatingDir, CreateDirFailed e]"
      by (simp add: say_def)
    moreover from eff il s1(1)
    have "\<forall>p. fs (say (CreateDirFailed e) s1) p \<noteq> fs s p \<longrightarrow>
            ancestor p d \<and> fs s p = None \<and> fs (say (CreateDirFailed e) s1) p = Some Dir"
      by (simp add: say_def) metis
    ultimately show ?thesis
      using False il by blast
  next
    case (Inr s1)
    from Inr i have il: "\<not> isl (os_makedirs E d s)"
      by simp
    from Inr f o have s1: "fs s1 = fs (final (os_makedirs E d s))"
      "out s1 = out s @ [DirMissing d, CreatingDir]"
      by simp_all
    from False Inr have "prepare_dir E d s = Inr (say (CreatedDir d) s1)"
      by (simp add: prepare_dir_def s0_def)
    moreover from s1 have "out (say (CreatedDir d) s1) =
        out s @ [DirMissing d, CreatingDir, CreatedDir d]"
      by (simp add: say_def)
    moreover from eff s1(1)
    have "\<forall>p. fs (say (CreatedDir d) s1) p \<noteq> fs s p \<longrightarrow>
            fs s p = None \<and> fs (say (CreatedDir d) s1) p = Some Dir \<and> (p = d \<or> ancestor p d)"
      by (simp add: say_def)
    ultimately show ?thesis
      using False il by blast
  qed
qed


lemma backup_phase_frame:
  assumes "\<forall>g \<in> set (map fst DATABASE_URLS). p \<noteq> target_path d g \<and> p \<noteq> backup_path_of d g"
    "p \<noteq> backup_dir_of d" "\<not> ancestor p (backup_dir_of d)"
  shows "fs (backup_phase E d backup s) p = fs s p"
  using backup_existing_files_frame [OF assms, of E "say BackupHeader s"]
  by (simp add: backup_phase_def)

lemma update_database_cases:
  "(\<not> os_exists s d \<and> isl (os_makedirs E d s) \<and> run_outcomes E d b s = None \<and>
    (\<exists>e s'. update_database E d b s = (False, s') \<and>
       out s' = out s @ [DirMissing d, CreatingDir, CreateDirFailed e] \<and>
       (\<forall>p. fs s' p \<noteq> fs s p \<longrightarrow> ancestor p d \<and> fs s p = None \<and> fs s' p = Some Dir))) \<or>
   (\<not> (\<not> os_exists s d \<and> isl (os_makedirs E d s)) \<and>
    (\<exists>s1. prepare_dir E d s = Inr s1 \<and>
       (\<forall>p. fs s1 p \<noteq> fs s p \<longrightarrow>
          fs s p = None \<and> fs s1 p = Some Dir \<and> (p = d \<or> ancestor p d)) \<and>
       (fs s d \<noteq> None \<longrightarrow> s1 = s) \<and>
       (\<exists>evs. out s1 = out s @ evs \<and> attempted evs = [] \<and> backup_events evs = []) \<and>
       update_database E d b s = fetch_phase E d (backup_phase E d b s1) \<and>
       run_outcomes E d b s =
         Some (download_outcomes E d DATABASE_URLS (announce d (backup_phase E d b s1)))))"
  using prepare_dir_cases [of s d E]
proof (elim disjE conjE exE)
  assume "os_exists s d" "prepare_dir E d s = Inr s"
  then show ?thesis
    by (auto simp: update_database_def run_outcomes_def fetch_start_announce os_exists_def)
next
  fix s1
  assume a: "\<not> os_exists s d" "\<not> isl (os_makedirs E d s)" "prepare_dir E d s = Inr s1"
    "out s1 = out s @ [DirMissing d, CreatingDir, CreatedDir d]"
    "\<forall>p. fs s1 p \<noteq> fs s p \<longrightarrow> fs s p = None \<and> fs s1 p = Some Dir \<and> (p = d \<or> ancestor p d)"
  from a(4) have "\<exists>evs. out s1 = out s @ evs \<and> attempted evs = [] \<and> backup_events evs = []"
    by simp
  moreover from a(1) have "fs s d \<noteq> None \<longrightarrow> s1 = s"
    by (simp add: os_exists_def)
  moreover from a(3)
  have "update_database E d b s = fetch_phase E d (backup_phase E d b s1) \<and>
       run_outcomes E d b s =
         Some (download_outcomes E d DATABASE_URLS (announce d (backup_phase E d b s1)))"
    by (simp add: update_database_def run_outcomes_def fetch_start_announce)
  ultimately show ?thesis
    using a(2,3,5) by blast
next
  fix e s'
  assume a: "\<not> os_exists s d" "isl (os_makedirs E d s)" "prepare_dir E d s = Inl s'"
    "out s' = out s @ [DirMissing d, CreatingDir, CreateDirFailed e]"
    "\<forall>p. fs s' p \<noteq> fs s p \<longrightarrow> ancestor p d \<and> fs s p = None \<and> fs s' p = Some Dir"
  from a(3) have "update_database E d b s = (False, s') \<and> run_outcomes E d b s = None"
    by (simp add: update_database_def run_outcomes_def)
  with a(1,2,4,5) show ?thesis
    by blast
qed

lemma update_database_fst:
  "fst (update_database E d b s) = (run_outcomes E d b s = Some [True, True, True])"
  using update_database_cases [of s d E b]
  by (elim disjE conjE exE) (simp_all add: fetch_phase_outcomes)

lemma update_database_tally:
  "case prepare_dir E d s of
     Inl s' \<Rightarrow> \<not> fst (update_database E d b s)
   | Inr s1 \<Rightarrow>
       fst (update_database E d b s) =
         (fst (download_all E d DATABASE_URLS (0, fetch_start E d b s1)) =
            int (length DATABASE_URLS)) \<and>
       fst (download_all E d DATABASE_URLS (0, fetch_start E d b s1)) =
         int (length (filter (\<lambda>ok. ok)
           (download_outcomes E d DATABASE_URLS (fetch_start E d b s1)))) \<and>
       length (download_outcomes E d DATABASE_URLS (fetch_start E d b s1)) = 3"
proof (cases "prepare_dir E d s")
  case (Inl s')
  then show ?thesis
    by (simp add: update_database_def)
next
  case (Inr s1)
  note g = download_all_general [OF plain_targets_fst, of d E 0 "fetch_start E d b s1"]
  from g have "fst (download_all E d DATABASE_URLS (0, fetch_start E d b s1)) =
         int (length (filter (\<lambda>ok. ok)
           (download_outcomes E d DATABASE_URLS (fetch_start E d b s1))))"
    "length (download_outcomes E d DATABASE_URLS (fetch_start E d b s1)) = 3"
    by (simp_all add: DATABASE_URLS_def)
  with Inr show ?thesis
    by (simp add: update_database_def fetch_phase_fst fetch_start_announce DATABASE_URLS_def)
qed

lemma main_unfold:
  "main E a s =
     (if fst (update_database E (args_db_dir a) (\<not> args_no_backup a) (banner s)) then 0 else 1,
      snd (update_database E (args_db_dir a) (\<not> args_no_backup a) (banner s)))"
  by (simp add: main_def banner_def Let_def)

text \<open>
  Claim C1. The exit status of \<^verbatim>\<open>main\<close> is 0 when the directory was ready and each of the
  three calls of \<^verbatim>\<open>download_file\<close> returned \<^verbatim>\<open>True\<close>, and 1 in every other case.
  \<^verbatim>\<open>update_database\<close> returns \<^verbatim>\<open>True\<close> exactly in that case, which is the case where the
  success tally equals the number of targets; the tally is the number of successful
  downloads among the three made.
\<close>

theorem exit_status_iff_all_downloaded:
  "fst (main E a s) =
     (if run_outcomes E (args_db_dir a) (\<not> args_no_backup a) (banner s) =
           Some [True, True, True]
      then 0 else 1) \<and>
   fst (update_database E d backup s) =
     (run_outcomes E d backup s = Some [True, True, True]) \<and>
   (case prepare_dir E d s of
      Inl s' \<Rightarrow> \<not> fst (update_database E d backup s)
    | Inr s1 \<Rightarrow>
        fst (update_database E d backup s) =
          (fst (download_all E d DATABASE_URLS (0, fetch_start E d backup s1)) =
             int (length DATABASE_URLS)) \<and>
        fst (download_all E d DATABASE_URLS (0, fetch_start E d backup s1)) =
          int (length (filter (\<lambda>ok. ok)
            (download_outcomes E d DATABASE_URLS (fetch_start E d backup s1)))) \<and>
        length (download_outcomes E d DATABASE_URLS (fetch_start E d backup s1)) = 3)"
  by (simp add: main_unfold update_database_fst update_database_tally)





lemma attempted_banner [simp]: "attempted (out (banner s)) = attempted (out s)"
  by (simp add: banner_def)

lemma fs_banner [simp]: "fs (banner s) = fs s"
  by (simp add: banner_def)

lemma backup_events_banner [simp]: "backup_events (out (banner s)) = backup_events (out s)"
  by (simp add: banner_def)


lemma run_outcomes_Some:
  assumes "run_outcomes E d b s = Some os"
  shows "\<exists>s1. prepare_dir E d s = Inr s1 \<and>
           os = download_outcomes E d DATABASE_URLS (announce d (backup_phase E d b s1)) \<and>
           update_database E d b s = fetch_phase E d (backup_phase E d b s1) \<and>
           \<not> (\<not> os_exists s d \<and> isl (os_makedirs E d s))"
  using update_database_cases [of s d E b] assms
  by (elim disjE conjE exE) simp_all






subsection \<open>Running without backups\<close>

lemma update_database_content:
  assumes "run_outcomes E d b s = Some os" "(x, True) \<in> set (zip DATABASE_URLS os)"
  shows "\<exists>resp. urlopen E (snd x) = Inr resp \<and>
           fs (snd (update_database E d b s)) (target_path d (fst x)) =
             Some (File (received (body resp)))"
proof -
  from run_outcomes_Some [OF assms(1)] obtain s1 where
    os: "os = download_outcomes E d DATABASE_URLS (announce d (backup_phase E d b s1))"
    and u: "update_database E d b s = fetch_phase E d (backup_phase E d b s1)"
    by blast
  from download_all_content [OF plain_targets_fst distinct_target_names, of x E d
      "announce d (backup_phase E d b s1)" 0] assms(2) os
  show ?thesis
    by (simp add: u fetch_phase_fs)
qed

lemma update_database_no_backup:
  "(\<forall>p. p \<noteq> d \<and> \<not> ancestor p d \<and> (\<forall>x \<in> set DATABASE_URLS. p \<noteq> target_path d (fst x)) \<longrightarrow>
       fs (snd (update_database E d False s)) p = fs s p) \<and>
   backup_events (out (snd (update_database E d False s))) = backup_events (out s)"
  using update_database_cases [of s d E False]
proof (elim disjE conjE exE)
  fix e s'
  assume "update_database E d False s = (False, s')"
    "out s' = out s @ [DirMissing d, CreatingDir, CreateDirFailed e]"
    "\<forall>p. fs s' p \<noteq> fs s p \<longrightarrow> ancestor p d \<and> fs s p = None \<and> fs s' p = Some Dir"
  then show ?thesis
    by auto
next
  fix s1 evs
  assume f: "\<forall>p. fs s1 p \<noteq> fs s p \<longrightarrow>
               fs s p = None \<and> fs s1 p = Some Dir \<and> (p = d \<or> ancestor p d)"
    and o: "out s1 = out s @ evs" "backup_events evs = []"
    and u: "update_database E d False s = fetch_phase E d (backup_phase E d False s1)"
  have b: "backup_phase E d False s1 = s1"
    by (simp add: backup_phase_def)
  show ?thesis
    unfolding u b
  proof (intro conjI allI impI)
    fix p
    assume p: "p \<noteq> d \<and> \<not> ancestor p d \<and> (\<forall>x \<in> set DATABASE_URLS. p \<noteq> target_path d (fst x))"
    with f have "fs s1 p = fs s p"
      by blast
    with p fetch_phase_frame [of p d E s1] show "fs (snd (fetch_phase E d s1)) p = fs s p"
      by simp
  next
    from o show "backup_events (out (snd (fetch_phase E d s1))) = backup_events (out s)"
      by (simp add: fetch_phase_backup_events)
  qed
qed

lemma backup_dir_not_target: "plain f \<Longrightarrow> backup_dir_of d \<noteq> target_path d f"
  using target_not_backup_dir [of f d] by simp

lemma backup_paths_not_targets:
  "backup_dir_of d \<noteq> d \<and> \<not> ancestor (backup_dir_of d) d \<and>
   (\<forall>x \<in> set DATABASE_URLS. backup_dir_of d \<noteq> target_path d (fst x)) \<and>
   (\<forall>y \<in> set DATABASE_URLS. backup_path_of d (fst y) \<noteq> d \<and>
      \<not> ancestor (backup_path_of d (fst y)) d \<and>
      (\<forall>x \<in> set DATABASE_URLS. backup_path_of d (fst y) \<noteq> target_path d (fst x)))"
  using plain_targets_fst
  by (simp add: backup_dir_not_db backup_path_not_db backup_not_target backup_dir_not_target
        managed_not_ancestor)

text \<open>
  Claim C8. When \<^verbatim>\<open>main\<close> runs with \<^verbatim>\<open>--no-backup\<close>, the backup step is not run: none of
  its messages is printed, and no path other than the directory itself, the missing
  ancestors that \<^verbatim>\<open>os.makedirs\<close> creates for it and the three target files changes, so that
  the backup directory and the backup copy of every target are what they were. A target whose download succeeds holds the bytes of the new response
  afterwards, whatever was at its path before.
\<close>

theorem no_backup_leaves_backups_alone:
  "args_no_backup a \<Longrightarrow>
   (\<forall>p. p \<noteq> args_db_dir a \<and> \<not> ancestor p (args_db_dir a) \<and>
        (\<forall>x \<in> set DATABASE_URLS. p \<noteq> target_path (args_db_dir a) (fst x)) \<longrightarrow>
        fs (snd (main E a s)) p = fs s p) \<and>
   fs (snd (main E a s)) (backup_dir_of (args_db_dir a)) = fs s (backup_dir_of (args_db_dir a)) \<and>
   (\<forall>x \<in> set DATABASE_URLS.
      fs (snd (main E a s)) (backup_path_of (args_db_dir a) (fst x)) =
        fs s (backup_path_of (args_db_dir a) (fst x))) \<and>
   backup_events (out (snd (main E a s))) = backup_events (out s) \<and>
   (\<forall>x os.
      run_outcomes E (args_db_dir a) False (banner s) = Some os \<and>
      (x, True) \<in> set (zip DATABASE_URLS os) \<longrightarrow>
      (\<exists>resp. urlopen E (snd x) = Inr resp \<and>
         fs (snd (main E a s)) (target_path (args_db_dir a) (fst x)) =
           Some (File (received (body resp)))))"
proof -
  assume nb: "args_no_backup a"
  define d where "d = args_db_dir a"
  from nb have m: "snd (main E a s) = snd (update_database E d False (banner s))"
    by (simp add: main_unfold d_def)
  note u = update_database_no_backup [of d E "banner s"]
  from u have fr: "\<forall>p. p \<noteq> d \<and> \<not> ancestor p d \<and>
       (\<forall>x \<in> set DATABASE_URLS. p \<noteq> target_path d (fst x)) \<longrightarrow>
       fs (snd (main E a s)) p = fs s p"
    by (simp add: m)
  from fr backup_paths_not_targets [of d]
  have bd: "fs (snd (main E a s)) (backup_dir_of d) = fs s (backup_dir_of d)"
    by blast
  from fr backup_paths_not_targets [of d]
  have bp: "\<forall>x \<in> set DATABASE_URLS.
      fs (snd (main E a s)) (backup_path_of d (fst x)) = fs s (backup_path_of d (fst x))"
    by blast
  from u have ev: "backup_events (out (snd (main E a s))) = backup_events (out s)"
    by (simp add: m)
  have ct: "\<forall>x os. run_outcomes E d False (banner s) = Some os \<and>
      (x, True) \<in> set (zip DATABASE_URLS os) \<longrightarrow>
      (\<exists>resp. urlopen E (snd x) = Inr resp \<and>
         fs (snd (main E a s)) (target_path d (fst x)) = Some (File (received (body resp))))"
    using update_database_content [of E d False "banner s"]
    by (simp add: m)
  from fr bd bp ev ct show ?thesis
    unfolding d_def by blast
qed

lemma sample_paths:
  "target_path ''/db'' ''main.cvd'' = ''/db/main.cvd''"
  "backup_dir_of ''/db'' = ''/db/backup''"
  "backup_path_of ''/db'' ''main.cvd'' = ''/db/backup/main.cvd''"
  by (simp_all add: target_path_def backup_path_of_def backup_dir_of_def path_join_def sep_def)

lemma main_target: "(''main.cvd'', ''https://database.clamav.net/main.cvd'') \<in> set DATABASE_URLS"
  by (simp add: DATABASE_URLS_def)

lemma run_outcomes_head:
  assumes "os_exists s d"
  shows "run_outcomes E d b s =
     Some (fst (download_file E ''https://database.clamav.net/main.cvd''
                  (target_path d ''main.cvd'') (fetch_start E d b s)) #
           download_outcomes E d (tl DATABASE_URLS)
             (say BlankLine (snd (download_file E ''https://database.clamav.net/main.cvd''
                  (target_path d ''main.cvd'') (fetch_start E d b s)))))"
  using assms
  by (simp add: run_outcomes_def prepare_dir_def DATABASE_URLS_def target_path_def)

theorem no_backup_leaves_backups_alone_witness:
  "fs (snd (main env_ok args_without_backup st_backed)) ''/db/backup'' = Some Dir \<and>
   fs (snd (main env_ok args_without_backup st_backed)) ''/db/backup/main.cvd'' =
     Some (File ''older'') \<and>
   backup_events (out (snd (main env_ok args_without_backup st_backed))) = [] \<and>
   fs (snd (main env_ok args_without_backup st_backed)) ''/db/main.cvd'' =
     Some (File ''helloworld'')"
proof -
  have nb: "args_no_backup args_without_backup"
    by (simp add: args_without_backup_def)
  have d: "args_db_dir args_without_backup = ''/db''"
    by (simp add: args_without_backup_def)
  note t = no_backup_leaves_backups_alone [OF nb, of env_ok st_backed, unfolded d]
  from t have 1: "fs (snd (main env_ok args_without_backup st_backed)) ''/db/backup'' = Some Dir"
    by (simp add: sample_paths st_backed_def)
  from t [THEN conjunct2, THEN conjunct2, THEN conjunct1, rule_format, OF main_target]
  have 2: "fs (snd (main env_ok args_without_backup st_backed)) ''/db/backup/main.cvd'' =
     Some (File ''older'')"
    by (simp add: sample_paths st_backed_def)
  from t have 3: "backup_events (out (snd (main env_ok args_without_backup st_backed))) = []"
    by (simp add: st_backed_def)
  have ex: "os_exists (banner st_backed) ''/db''"
    by (simp add: os_exists_def st_backed_def)
  have "fst (download_file env_ok ''https://database.clamav.net/main.cvd''
               (target_path ''/db'' ''main.cvd'') (fetch_start env_ok ''/db'' False (banner st_backed)))"
    by (rule download_file_intact [of _ _ "sample_response (Some ''10'')" 10])
       (simp_all add: env_ok_def total_size_sample no_faults_def sample_paths fetch_start_def
          backup_phase_def st_backed_def)
  with run_outcomes_head [OF ex, of env_ok False] obtain os where
    r: "run_outcomes env_ok ''/db'' False (banner st_backed) = Some os \<and>
        ((''main.cvd'', ''https://database.clamav.net/main.cvd''), True)
          \<in> set (zip DATABASE_URLS os)"
    by (simp add: DATABASE_URLS_def)
  from t [THEN conjunct2, THEN conjunct2, THEN conjunct2, THEN conjunct2, rule_format, OF r]
  have 4: "fs (snd (main env_ok args_without_backup st_backed)) ''/db/main.cvd'' =
     Some (File ''helloworld'')"
    by (simp add: sample_paths env_ok_def total_size_sample)
  from 1 2 3 4 show ?thesis
    by simp
qed

subsection \<open>Rotation failures and the single backup slot\<close>


lemma rotation_outcome_done:
  "rotate_attempt E (target_path d f) (backup_path_of d f) f s = Inr s2 \<Longrightarrow>
   rotation_outcome E d f s s' =
     (fs s' (backup_path_of d f) = fs s (target_path d f) \<and>
      fs s' (target_path d f) = None \<and> BackedUp f \<in> set (out s'))"
  by (simp add: rotation_outcome_def)






lemma update_database_creates:
  assumes "fs (snd (update_database E d b s)) p \<noteq> None"
  shows "fs s p \<noteq> None \<or> p \<in> managed_paths d \<or> ancestor p (backup_dir_of d)"
proof (cases "p \<in> managed_paths d \<or> ancestor p (backup_dir_of d)")
  case True
  then show ?thesis by blast
next
  case False
  then have pd: "p \<noteq> d" and pb: "p \<noteq> backup_dir_of d"
    and pt: "\<forall>g \<in> set (map fst DATABASE_URLS). p \<noteq> target_path d g \<and> p \<noteq> backup_path_of d g"
    and pa: "\<not> ancestor p (backup_dir_of d)"
    by (auto simp: managed_paths_def)
  from pa ancestor_backup_dir [of p d] have pn: "\<not> ancestor p d"
    by blast
  from pt have px: "\<forall>x \<in> set DATABASE_URLS. p \<noteq> target_path d (fst x)"
    by simp
  from update_database_cases [of s d E b] have "fs (snd (update_database E d b s)) p = fs s p"
  proof (elim disjE conjE exE)
    fix e s'
    assume "update_database E d b s = (False, s')"
      "\<forall>p. fs s' p \<noteq> fs s p \<longrightarrow> ancestor p d \<and> fs s p = None \<and> fs s' p = Some Dir"
    with pn show ?thesis
      by auto
  next
    fix s1
    assume f: "\<forall>p. fs s1 p \<noteq> fs s p \<longrightarrow>
                 fs s p = None \<and> fs s1 p = Some Dir \<and> (p = d \<or> ancestor p d)"
      and u: "update_database E d b s = fetch_phase E d (backup_phase E d b s1)"
    from f pd pn have "fs s1 p = fs s p"
      by blast
    with fetch_phase_frame [OF px, of E "backup_phase E d b s1"]
      backup_phase_frame [OF pt pb pa, of E b s1]
    show ?thesis
      by (simp add: u)
  qed
  with assms show ?thesis
    by simp
qed

lemma runs_creates:
  "fs (runs Es d b s) p \<noteq> None \<Longrightarrow>
   fs s p \<noteq> None \<or> p \<in> managed_paths d \<or> ancestor p (backup_dir_of d)"
proof (induction Es arbitrary: s)
  case Nil
  then show ?case by simp
next
  case (Cons E Es)
  from Cons.prems have "fs (runs Es d b (snd (update_database E d b s))) p \<noteq> None"
    by simp
  from Cons.IH [OF this] update_database_creates [of E d b s p] show ?case
    by blast
qed

lemma managed_paths_backup:
  "managed_paths ''/db'' =
     {''/db'', ''/db/backup'', ''/db/main.cvd'', ''/db/daily.cvd'', ''/db/bytecode.cvd'',
      ''/db/backup/main.cvd'', ''/db/backup/daily.cvd'', ''/db/backup/bytecode.cvd''}"
  by (auto simp: managed_paths_def target_names target_path_def backup_path_of_def
        backup_dir_of_def path_join_def sep_def)

text \<open>
  Claim C4. A rotation that succeeds leaves in the backup path of a target exactly what was
  at the target's path, whatever backup was there before, and the target's path empty. And
  however often the update runs on a directory, with backups or without and whatever the
  network and the filesystem do, every path that exists afterwards existed before, is one
  of the eight managed paths, or is a directory above the backup directory that
  \<^verbatim>\<open>os.makedirs\<close> had to create: in the backup directory these are the three backup paths,
  one per target name, so no second backup copy of a target is ever made.
\<close>

theorem one_backup_per_target:
  "(\<forall>f s2.
      f \<in> set (map fst DATABASE_URLS) \<and> os_exists s (target_path d f) \<and>
      backup_dir_ready E d s \<and>
      rotate_attempt E (target_path d f) (backup_path_of d f) f s = Inr s2 \<longrightarrow>
      fs (snd (backup_existing_files E d s)) (backup_path_of d f) = fs s (target_path d f) \<and>
      fs (snd (backup_existing_files E d s)) (target_path d f) = None) \<and>
   (\<forall>p. fs (runs Es d b s) p \<noteq> None \<longrightarrow>
      fs s p \<noteq> None \<or> p \<in> managed_paths d \<or> ancestor p (backup_dir_of d)) \<and>
   managed_paths d =
     {d, backup_dir_of d} \<union>
     {target_path d ''main.cvd'', target_path d ''daily.cvd'', target_path d ''bytecode.cvd''} \<union>
     {backup_path_of d ''main.cvd'', backup_path_of d ''daily.cvd'',
      backup_path_of d ''bytecode.cvd''}"
proof (intro conjI allI impI)
  fix f s2
  assume a: "f \<in> set (map fst DATABASE_URLS) \<and> os_exists s (target_path d f) \<and>
      backup_dir_ready E d s \<and>
      rotate_attempt E (target_path d f) (backup_path_of d f) f s = Inr s2"
  then have "rotation_outcome E d f s (snd (backup_existing_files E d s))"
    by (intro backup_existing_files_outcome) simp_all
  with a
  show "fs (snd (backup_existing_files E d s)) (backup_path_of d f) = fs s (target_path d f)"
    and "fs (snd (backup_existing_files E d s)) (target_path d f) = None"
    by (simp_all add: rotation_outcome_done [of E d f s s2])
next
  fix p assume "fs (runs Es d b s) p \<noteq> None"
  then show "fs s p \<noteq> None \<or> p \<in> managed_paths d \<or> ancestor p (backup_dir_of d)"
    by (rule runs_creates)
next
  show "managed_paths d =
     {d, backup_dir_of d} \<union>
     {target_path d ''main.cvd'', target_path d ''daily.cvd'', target_path d ''bytecode.cvd''} \<union>
     {backup_path_of d ''main.cvd'', backup_path_of d ''daily.cvd'',
      backup_path_of d ''bytecode.cvd''}"
    by (simp add: managed_paths_def target_names)
qed

lemma st_backed_fs:
  "fs st_backed ''/db'' = Some Dir"
  "fs st_backed ''/db/main.cvd'' = Some (File ''old'')"
  "fs st_backed ''/db/backup'' = Some Dir"
  "fs st_backed ''/db/backup/main.cvd'' = Some (File ''older'')"
  "fs st_backed ''/db/main.cvd.1'' = None"
  "fs st_backed ''/db/backup/main.cvd.1'' = None"
  by (simp_all add: st_backed_def)

theorem one_backup_per_target_witness:
  "fs (snd (backup_existing_files env_ok ''/db'' st_backed)) ''/db/backup/main.cvd'' =
     Some (File ''old'') \<and>
   fs (snd (backup_existing_files env_ok ''/db'' st_backed)) ''/db/main.cvd'' = None \<and>
   fs (runs [env_ok, env_403, env_ok] ''/db'' True st_backed) ''/db/backup/main.cvd.1'' = None"
proof -
  note t = one_backup_per_target
             [of st_backed "''/db''" env_ok "[env_ok, env_403, env_ok]" True]
  have "\<exists>s2. rotate_attempt env_ok (target_path ''/db'' ''main.cvd'')
              (backup_path_of ''/db'' ''main.cvd'') ''main.cvd'' st_backed = Inr s2"
    by (simp add: sample_paths rotate_attempt_def os_exists_def os_rename_def os_remove_def
          st_backed_fs env_ok_def no_faults_def)
  then obtain s2 where a: "''main.cvd'' \<in> set (map fst DATABASE_URLS) \<and>
      os_exists st_backed (target_path ''/db'' ''main.cvd'') \<and>
      backup_dir_ready env_ok ''/db'' st_backed \<and>
      rotate_attempt env_ok (target_path ''/db'' ''main.cvd'')
              (backup_path_of ''/db'' ''main.cvd'') ''main.cvd'' st_backed = Inr s2"
    by (auto simp: target_names sample_paths os_exists_def st_backed_fs backup_dir_ready_def)
  from t [THEN conjunct1, rule_format, OF a]
  have 1: "fs (snd (backup_existing_files env_ok ''/db'' st_backed)) ''/db/backup/main.cvd'' =
     Some (File ''old'')"
    and 2: "fs (snd (backup_existing_files env_ok ''/db'' st_backed)) ''/db/main.cvd'' = None"
    by (simp_all add: sample_paths st_backed_fs)
  have m: "''/db/backup/main.cvd.1'' \<notin> managed_paths ''/db''"
    by (simp add: managed_paths_backup)
  have n: "fs st_backed ''/db/backup/main.cvd.1'' = None"
    by (rule st_backed_fs)
  have k: "\<not> ancestor ''/db/backup/main.cvd.1'' (backup_dir_of ''/db'')"
    by (rule ancestor_longer) (simp add: sample_paths)
  note i = t [THEN conjunct2, THEN conjunct1, THEN spec, of "''/db/backup/main.cvd.1''"]
  from i m n k
  have 3: "fs (runs [env_ok, env_403, env_ok] ''/db'' True st_backed) ''/db/backup/main.cvd.1''
             = None"
    by blast
  from 1 2 3 show ?thesis
    by simp
qed

end
